theory Spec2Isabelle
  imports Complex_Main "HOL-Library.AList" "HOL-Library.Log_Nat"
begin

section \<open>The NVML exporter: data model\<close>

text \<open>
  The development embeds \<^verbatim>\<open>nvidia_exporter.go\<close>. The exporter owns one gauge \<^verbatim>\<open>up\<close> and
  a Go map of gauge vectors; \<^verbatim>\<open>Collect\<close> resets the vectors, sets \<^verbatim>\<open>up\<close> to 1 and lets
  \<^verbatim>\<open>GetTelemetryFromNVML\<close> walk over the devices, returning at the first failing query.

  The type \<^verbatim>\<open>Device\<close> and its four query methods are declared outside the file; the
  record below has the three fields the file reads, and the methods are the fields of
  the record \<open>nvml\<close>: what the management library answers, per device, during one cycle.
  An \<^verbatim>\<open>error\<close> is represented by its message.
\<close>

record Device =
  i :: int
  DeviceUUID :: string
  DeviceName :: string

record NVMLMemory =
  Free :: int
  Total :: int
  Used :: int

record nvml =
  GetUtilization :: "Device \<Rightarrow> string + int \<times> int"
  GetTemperature :: "Device \<Rightarrow> string + int \<times> int"
  GetPowerUsage :: "Device \<Rightarrow> string + int"
  GetMemoryInfo :: "Device \<Rightarrow> string + NVMLMemory"

record VecInfo =
  "help" :: string
  labels :: "string list"

definition DefaultNamespace :: string where
  "DefaultNamespace = ''nvml''"

text \<open>
  The catalog. A Go map has no iteration order; the association list keeps the order of
  the source text, and no statement below depends on it.
\<close>

definition gaugeMetrics :: "(string \<times> VecInfo) list" where
  "gaugeMetrics =
    [(''power_watts'',
        \<lparr>help = ''Power Usage of an NVIDIA GPU in Watts'',
         labels = [''device_id'', ''device_uuid'', ''device_name'']\<rparr>),
     (''gpu_percent'',
        \<lparr>help = ''Percent of GPU Utilized'',
         labels = [''device_id'', ''device_uuid'', ''device_name'']\<rparr>),
     (''memory_free'',
        \<lparr>help = ''Number of bytes free in the GPU Memory'',
         labels = [''device_id'', ''device_uuid'', ''device_name'']\<rparr>),
     (''memory_total'',
        \<lparr>help = ''Total bytes of the GPU's memory'',
         labels = [''device_id'', ''device_uuid'', ''device_name'']\<rparr>),
     (''memory_used'',
        \<lparr>help = ''Total number of bytes used in the GPU Memory'',
         labels = [''device_id'', ''device_uuid'', ''device_name'']\<rparr>),
     (''memory_percent'',
        \<lparr>help = ''Percent of GPU Memory Utilized'',
         labels = [''device_id'', ''device_uuid'', ''device_name'']\<rparr>),
     (''temperature_fahrenheit'',
        \<lparr>help = ''GPU Temperature in Fahrenheit'',
         labels = [''device_id'', ''device_uuid'', ''device_name'']\<rparr>),
     (''temperature_celsius'',
        \<lparr>help = ''GPU Temperature in Celsius'',
         labels = [''device_id'', ''device_uuid'', ''device_name'']\<rparr>)]"

subsection \<open>The two library functions the collector leans on\<close>

text \<open>
  \<^verbatim>\<open>strconv.Itoa\<close>: the decimal rendering of an integer, with a minus sign for a
  negative one.
\<close>

definition digit :: "nat \<Rightarrow> char" where
  "digit n = char_of (48 + n)"

function digits :: "nat \<Rightarrow> string" where
  "digits n = (if n < 10 then [digit n] else digits (n div 10) @ [digit (n mod 10)])"
  by pat_completeness auto
termination
  by (relation "measure (\<lambda>n. n)") auto

definition Itoa :: "int \<Rightarrow> string" where
  "Itoa n = (if n < 0 then CHR ''-'' # digits (nat (- n)) else digits (nat n))"

text \<open>
  The conversion \<^verbatim>\<open>float64(n)\<close> of an integer: the value itself when it has at most 53
  significant bits, otherwise the nearest multiple of the unit in the last place, ties
  going to the even one. A gauge value is the real number its float64 denotes.
\<close>

definition float64 :: "int \<Rightarrow> real" where
  "float64 n =
    (let m = \<bar>n\<bar>; e = nat (bitlen m - 53) in
     if e = 0 then real_of_int n
     else
       let q = m div 2 ^ e; r = m mod 2 ^ e; h = 2 ^ (e - 1);
           q' = (if h < r \<or> (r = h \<and> odd q) then q + 1 else q)
       in real_of_int (sgn n * (q' * 2 ^ e)))"

subsection \<open>Gauge vectors\<close>

text \<open>
  A \<^verbatim>\<open>prometheus.GaugeVec\<close> is a descriptor (fully qualified name, help text, label
  names) and one gauge per tuple of label values, created on first use. The tuples are
  the keys of an association list. \<^verbatim>\<open>WithLabelValues\<close> panics when the number of values
  differs from the number of label names.
\<close>

record GaugeVec =
  Name :: string
  Help :: string
  variableLabels :: "string list"
  metrics :: "(string list \<times> real) list"

datatype Metric = Metric string "(string \<times> string) list" real

definition NewGaugeVec :: "string \<Rightarrow> string \<Rightarrow> string \<Rightarrow> string list \<Rightarrow> GaugeVec" where
  "NewGaugeVec namespace name hlp lbls =
     \<lparr>Name = namespace @ ''_'' @ name, Help = hlp, variableLabels = lbls, metrics = []\<rparr>"

definition Reset :: "GaugeVec \<Rightarrow> GaugeVec" where
  "Reset vec = vec\<lparr>metrics := []\<rparr>"

definition WithLabelValues_Set :: "string list \<Rightarrow> real \<Rightarrow> GaugeVec \<Rightarrow> GaugeVec" where
  "WithLabelValues_Set lvs x vec = vec\<lparr>metrics := AList.update lvs x (metrics vec)\<rparr>"

definition vec_Collect :: "GaugeVec \<Rightarrow> Metric list" where
  "vec_Collect vec =
     map (\<lambda>(lvs, x). Metric (Name vec) (zip (variableLabels vec) lvs) x) (metrics vec)"

subsection \<open>The exporter and the record of a run\<close>

text \<open>
  The mutex is left out: the model runs one cycle at a time, which is what the lock
  enforces. Beside the exporter a run carries the list of the effects performed so far,
  in order: resets, writes of \<^verbatim>\<open>up\<close>, device queries with their outcome, lines printed,
  gauge writes and the metrics sent on the channel of \<^verbatim>\<open>Collect\<close>.
\<close>

record Exporter =
  up :: real
  gauges :: "(string \<times> GaugeVec) list"
  devices :: "Device list"

datatype qclass = Utilization | Temperature | PowerUsage | MemoryInfo

datatype event =
    EvReset string
  | EvUpSet real
  | EvQuery qclass Device bool
  | EvPrintf string
  | EvGaugeSet string "string list" real
  | EvSend Metric

record process =
  exporter :: Exporter
  events :: "event list"

datatype panic = NilGaugeVec string | InconsistentCardinality string

datatype flow =
    is_Next: Next (state_of: process)
  | is_Return: Return (state_of: process)
  | is_Panic: Panic panic (state_of: process)

definition then_do :: "flow \<Rightarrow> (process \<Rightarrow> flow) \<Rightarrow> flow" where
  "then_do r f = (case r of Next s \<Rightarrow> f s | Return s \<Rightarrow> Return s | Panic p s \<Rightarrow> Panic p s)"

definition emit :: "event \<Rightarrow> process \<Rightarrow> process" where
  "emit ev s = s\<lparr>events := events s @ [ev]\<rparr>"

definition Printf :: "string \<Rightarrow> process \<Rightarrow> process" where
  "Printf line s = emit (EvPrintf line) s"

definition up_Set :: "real \<Rightarrow> process \<Rightarrow> process" where
  "up_Set x s = emit (EvUpSet x) (s\<lparr>exporter := (exporter s)\<lparr>up := x\<rparr>\<rparr>)"

text \<open>
  The statement \<^verbatim>\<open>e.gauges[name].WithLabelValues(lvs...).Set(x)\<close>. A name that is not a
  key of the map yields a nil vector, and the call on it panics.
\<close>

definition gauge_Set :: "string \<Rightarrow> string list \<Rightarrow> real \<Rightarrow> process \<Rightarrow> flow" where
  "gauge_Set name lvs x s =
    (case map_of (gauges (exporter s)) name of
       None \<Rightarrow> Panic (NilGaugeVec name) s
     | Some vec \<Rightarrow>
         if length lvs \<noteq> length (variableLabels vec) then Panic (InconsistentCardinality name) s
         else Next (emit (EvGaugeSet name lvs x)
                (s\<lparr>exporter := (exporter s)\<lparr>gauges :=
                     AList.map_entry name (WithLabelValues_Set lvs x) (gauges (exporter s))\<rparr>\<rparr>)))"

section \<open>The collector\<close>

text \<open>
  \<^verbatim>\<open>NewExporter\<close>, given what \<^verbatim>\<open>GetDevices\<close> returned. The fresh \<^verbatim>\<open>up\<close> gauge holds 0.
\<close>

definition NewExporter :: "string + Device list \<Rightarrow> string + Exporter" where
  "NewExporter got =
    (case got of
       Inl err \<Rightarrow> Inl err
     | Inr ds \<Rightarrow>
         Inr \<lparr>up = 0,
              gauges = map (\<lambda>(name, info).
                         (name, NewGaugeVec DefaultNamespace name (help info) (labels info)))
                       gaugeMetrics,
              devices = ds\<rparr>)"

text \<open>One iteration of the loop of \<^verbatim>\<open>GetTelemetryFromNVML\<close>.\<close>

definition loop_body :: "nvml \<Rightarrow> Device \<Rightarrow> process \<Rightarrow> flow" where
  "loop_body w device s =
    (case GetUtilization w device of
       Inl err \<Rightarrow>
         Return (up_Set 0
           (Printf (''Failed to get Device Utilization for '' @ DeviceUUID device @ '': '' @ err @ [CHR 0x0A])
             (emit (EvQuery Utilization device False) s)))
     | Inr (gpuPercent, memoryPercent) \<Rightarrow>
       then_do (gauge_Set ''gpu_percent'' [Itoa (i device), DeviceUUID device, DeviceName device]
                  (float64 gpuPercent) (emit (EvQuery Utilization device True) s)) (\<lambda>s.
       then_do (gauge_Set ''memory_percent'' [Itoa (i device), DeviceUUID device, DeviceName device]
                  (float64 memoryPercent) s) (\<lambda>s.
       case GetTemperature w device of
         Inl err \<Rightarrow>
           Return (up_Set 0
             (Printf (''Failed to get Device Temperature for '' @ DeviceUUID device @ '': '' @ err @ [CHR 0x0A])
               (emit (EvQuery Temperature device False) s)))
       | Inr (tempF, tempC) \<Rightarrow>
         then_do (gauge_Set ''temperature_celsius'' [Itoa (i device), DeviceUUID device, DeviceName device]
                    (float64 tempC) (emit (EvQuery Temperature device True) s)) (\<lambda>s.
         then_do (gauge_Set ''temperature_fahrenheit'' [Itoa (i device), DeviceUUID device, DeviceName device]
                    (float64 tempF) s) (\<lambda>s.
         case GetPowerUsage w device of
           Inl err \<Rightarrow>
             Return (up_Set 0
               (Printf (''Failed to get Device Power Usage for '' @ DeviceUUID device @ '': '' @ err @ [CHR 0x0A])
                 (emit (EvQuery PowerUsage device False) s)))
         | Inr powerUsage \<Rightarrow>
           then_do (gauge_Set ''power_watts'' [Itoa (i device), DeviceUUID device, DeviceName device]
                      (float64 powerUsage) (emit (EvQuery PowerUsage device True) s)) (\<lambda>s.
           case GetMemoryInfo w device of
             Inl err \<Rightarrow>
               Return (up_Set 0
                 (Printf (''Failed to get Memory Info for '' @ DeviceUUID device @ '': '' @ err @ [CHR 0x0A])
                   (emit (EvQuery MemoryInfo device False) s)))
           | Inr gpuMem \<Rightarrow>
             then_do (gauge_Set ''memory_free'' [Itoa (i device), DeviceUUID device, DeviceName device]
                        (float64 (Free gpuMem)) (emit (EvQuery MemoryInfo device True) s)) (\<lambda>s.
             then_do (gauge_Set ''memory_total'' [Itoa (i device), DeviceUUID device, DeviceName device]
                        (float64 (Total gpuMem)) s) (\<lambda>s.
             gauge_Set ''memory_used'' [Itoa (i device), DeviceUUID device, DeviceName device]
                        (float64 (Used gpuMem)) s))))))))"

fun device_loop :: "nvml \<Rightarrow> Device list \<Rightarrow> process \<Rightarrow> flow" where
  "device_loop w [] s = Next s"
| "device_loop w (device # rest) s = then_do (loop_body w device s) (device_loop w rest)"

text \<open>
  \<^verbatim>\<open>GetTelemetryFromNVML\<close> returns to its caller both at the end of the loop and at an
  early \<^verbatim>\<open>return\<close>; only a panic goes further up.
\<close>

definition GetTelemetryFromNVML :: "nvml \<Rightarrow> process \<Rightarrow> flow" where
  "GetTelemetryFromNVML w s =
    (case device_loop w (devices (exporter s)) s of
       Next s' \<Rightarrow> Next s'
     | Return s' \<Rightarrow> Next s'
     | Panic p s' \<Rightarrow> Panic p s')"

text \<open>The two loops over \<^verbatim>\<open>e.gauges\<close> in \<^verbatim>\<open>Collect\<close>.\<close>

definition reset_gauges :: "process \<Rightarrow> process" where
  "reset_gauges s =
     s\<lparr>exporter := (exporter s)\<lparr>gauges := map (\<lambda>(name, vec). (name, Reset vec)) (gauges (exporter s))\<rparr>,
       events := events s @ map (\<lambda>(name, vec). EvReset name) (gauges (exporter s))\<rparr>"

definition collect_gauges :: "process \<Rightarrow> process" where
  "collect_gauges s =
     s\<lparr>events := events s @ map EvSend (concat (map (\<lambda>(name, vec). vec_Collect vec) (gauges (exporter s))))\<rparr>"

definition send_up :: "process \<Rightarrow> process" where
  "send_up s = emit (EvSend (Metric (DefaultNamespace @ ''_up'') [] (up (exporter s)))) s"

text \<open>
  \<^verbatim>\<open>Collect\<close>. The deferred send of \<^verbatim>\<open>up\<close> runs when the function returns and also when
  a panic unwinds it.
\<close>

definition Collect :: "nvml \<Rightarrow> process \<Rightarrow> flow" where
  "Collect w s =
    (case GetTelemetryFromNVML w (up_Set 1 (reset_gauges s)) of
       Next s' \<Rightarrow> Next (send_up (collect_gauges s'))
     | Return s' \<Rightarrow> Next (send_up (collect_gauges s'))
     | Panic p s' \<Rightarrow> Panic p (send_up s'))"

section \<open>Vocabulary of the statements\<close>

subsection \<open>Observing an exporter and a run\<close>

text \<open>
  The label values of a device, as the eight writes of the loop body spell them out;
  the series a metric name stands for (empty when the map has no such vector); one cycle
  started from an exporter, with the state it ends in, its effects and the metrics among
  them that went to the channel.
\<close>

definition label_values :: "Device \<Rightarrow> string list" where
  "label_values d = [Itoa (i d), DeviceUUID d, DeviceName d]"

definition series :: "string \<Rightarrow> Exporter \<Rightarrow> (string list \<times> real) list" where
  "series name e = (case map_of (gauges e) name of None \<Rightarrow> [] | Some vec \<Rightarrow> metrics vec)"

definition cycle :: "nvml \<Rightarrow> Exporter \<Rightarrow> Exporter" where
  "cycle w e = exporter (state_of (Collect w \<lparr>exporter = e, events = []\<rparr>))"

definition cycle_trace :: "nvml \<Rightarrow> Exporter \<Rightarrow> event list" where
  "cycle_trace w e = events (state_of (Collect w \<lparr>exporter = e, events = []\<rparr>))"

fun sent :: "event list \<Rightarrow> Metric list" where
  "sent [] = []"
| "sent (EvSend m # evs) = m # sent evs"
| "sent (ev # evs) = sent evs"

text \<open>
  The shape \<^verbatim>\<open>NewExporter\<close> gives the map of vectors and no cycle changes: one vector per
  catalog name, with the label schema the catalog declares for it. The second predicate is
  the uniqueness of entries: no two vectors of a name, no two entries of a label tuple.
\<close>

definition wf_exporter :: "Exporter \<Rightarrow> bool" where
  "wf_exporter e \<longleftrightarrow>
     distinct (map fst (gauges e)) \<and>
     set (map fst (gauges e)) = set (map fst gaugeMetrics) \<and>
     (\<forall>(name, vec) \<in> set (gauges e).
        map_option labels (map_of gaugeMetrics name) = Some (variableLabels vec))"

definition registry_ok :: "Exporter \<Rightarrow> bool" where
  "registry_ok e \<longleftrightarrow>
     distinct (map fst (gauges e)) \<and>
     (\<forall>(name, vec) \<in> set (gauges e). distinct (map fst (metrics vec)))"

subsection \<open>What the devices answer\<close>

text \<open>
  The first query class, in the order of the loop body, for which a device answers with
  an error; the metric names an iteration has written when it stops at a failing class
  (all eight when it stops at none); and the devices of a list for which a cycle writes a
  given metric: the loop goes on only past a device that failed no query.
\<close>

definition first_failure :: "nvml \<Rightarrow> Device \<Rightarrow> qclass option" where
  "first_failure w d =
    (if isl (GetUtilization w d) then Some Utilization
     else if isl (GetTemperature w d) then Some Temperature
     else if isl (GetPowerUsage w d) then Some PowerUsage
     else if isl (GetMemoryInfo w d) then Some MemoryInfo
     else None)"

fun written :: "qclass option \<Rightarrow> string list" where
  "written (Some Utilization) = []"
| "written (Some Temperature) = [''gpu_percent'', ''memory_percent'']"
| "written (Some PowerUsage) =
     [''gpu_percent'', ''memory_percent'', ''temperature_celsius'', ''temperature_fahrenheit'']"
| "written (Some MemoryInfo) =
     [''gpu_percent'', ''memory_percent'', ''temperature_celsius'', ''temperature_fahrenheit'',
      ''power_watts'']"
| "written None =
     [''gpu_percent'', ''memory_percent'', ''temperature_celsius'', ''temperature_fahrenheit'',
      ''power_watts'', ''memory_free'', ''memory_total'', ''memory_used'']"

fun covered :: "nvml \<Rightarrow> string \<Rightarrow> Device list \<Rightarrow> Device list" where
  "covered w name [] = []"
| "covered w name (d # ds) =
     (if name \<in> set (written (first_failure w d)) then [d] else []) @
     (if first_failure w d = None then covered w name ds else [])"

text \<open>
  The value the specification gives a metric of a device: the boundary of section 6
  returns (gpuPercent, memPercent), (fahrenheit, celsius), watts and (free, total, used),
  and each metric shows the answer of its name. It is stated from the specification, to
  be compared with what the loop body writes.
\<close>

definition reading :: "nvml \<Rightarrow> string \<Rightarrow> Device \<Rightarrow> real option" where
  "reading w name d =
    (if name = ''gpu_percent'' then
       (case GetUtilization w d of Inl err \<Rightarrow> None | Inr (g, m) \<Rightarrow> Some (float64 g))
     else if name = ''memory_percent'' then
       (case GetUtilization w d of Inl err \<Rightarrow> None | Inr (g, m) \<Rightarrow> Some (float64 m))
     else if name = ''temperature_fahrenheit'' then
       (case GetTemperature w d of Inl err \<Rightarrow> None | Inr (f, c) \<Rightarrow> Some (float64 f))
     else if name = ''temperature_celsius'' then
       (case GetTemperature w d of Inl err \<Rightarrow> None | Inr (f, c) \<Rightarrow> Some (float64 c))
     else if name = ''power_watts'' then
       (case GetPowerUsage w d of Inl err \<Rightarrow> None | Inr p \<Rightarrow> Some (float64 p))
     else if name = ''memory_free'' then
       (case GetMemoryInfo w d of Inl err \<Rightarrow> None | Inr mem \<Rightarrow> Some (float64 (Free mem)))
     else if name = ''memory_total'' then
       (case GetMemoryInfo w d of Inl err \<Rightarrow> None | Inr mem \<Rightarrow> Some (float64 (Total mem)))
     else if name = ''memory_used'' then
       (case GetMemoryInfo w d of Inl err \<Rightarrow> None | Inr mem \<Rightarrow> Some (float64 (Used mem)))
     else None)"

subsection \<open>The effects of a cycle in closed form\<close>

text \<open>
  The effect of one event on the exporter, and a list of events performed on a run. For
  an exporter of the shape above no write panics, and the cycle performs exactly the
  events listed by the functions below: per query class the query and its writes, or the
  query, the printed line and \<open>up.Set(0)\<close>; per cycle the resets, \<open>up.Set(1)\<close>, the
  iterations up to the first failing one, and the sends.
\<close>

fun replay :: "event \<Rightarrow> Exporter \<Rightarrow> Exporter" where
  "replay (EvReset name) e = e\<lparr>gauges := AList.map_entry name Reset (gauges e)\<rparr>"
| "replay (EvUpSet x) e = e\<lparr>up := x\<rparr>"
| "replay (EvGaugeSet name lvs x) e =
     e\<lparr>gauges := AList.map_entry name (WithLabelValues_Set lvs x) (gauges e)\<rparr>"
| "replay (EvQuery c d ok) e = e"
| "replay (EvPrintf line) e = e"
| "replay (EvSend m) e = e"

definition run_events :: "event list \<Rightarrow> process \<Rightarrow> process" where
  "run_events evs s = \<lparr>exporter = fold replay evs (exporter s), events = events s @ evs\<rparr>"

fun what :: "qclass \<Rightarrow> string" where
  "what Utilization = ''Device Utilization''"
| "what Temperature = ''Device Temperature''"
| "what PowerUsage = ''Device Power Usage''"
| "what MemoryInfo = ''Memory Info''"

definition failure_events :: "qclass \<Rightarrow> Device \<Rightarrow> string \<Rightarrow> event list" where
  "failure_events c d err =
     [EvQuery c d False,
      EvPrintf (''Failed to get '' @ what c @ '' for '' @ DeviceUUID d @ '': '' @ err @ [CHR 0x0A]),
      EvUpSet 0]"

definition success_events :: "qclass \<Rightarrow> Device \<Rightarrow> (string \<times> int) list \<Rightarrow> event list" where
  "success_events c d writes =
     EvQuery c d True # map (\<lambda>(name, n). EvGaugeSet name (label_values d) (float64 n)) writes"

definition dev_events :: "nvml \<Rightarrow> Device \<Rightarrow> event list" where
  "dev_events w d =
    (case GetUtilization w d of
       Inl err \<Rightarrow> failure_events Utilization d err
     | Inr (g, m) \<Rightarrow>
       success_events Utilization d [(''gpu_percent'', g), (''memory_percent'', m)] @
       (case GetTemperature w d of
          Inl err \<Rightarrow> failure_events Temperature d err
        | Inr (f, c) \<Rightarrow>
          success_events Temperature d [(''temperature_celsius'', c), (''temperature_fahrenheit'', f)] @
          (case GetPowerUsage w d of
             Inl err \<Rightarrow> failure_events PowerUsage d err
           | Inr p \<Rightarrow>
             success_events PowerUsage d [(''power_watts'', p)] @
             (case GetMemoryInfo w d of
                Inl err \<Rightarrow> failure_events MemoryInfo d err
              | Inr mem \<Rightarrow>
                success_events MemoryInfo d
                  [(''memory_free'', Free mem), (''memory_total'', Total mem), (''memory_used'', Used mem)]))))"

fun loop_events :: "nvml \<Rightarrow> Device list \<Rightarrow> event list" where
  "loop_events w [] = []"
| "loop_events w (d # ds) =
     dev_events w d @ (if first_failure w d = None then loop_events w ds else [])"

definition body_events :: "nvml \<Rightarrow> Exporter \<Rightarrow> event list" where
  "body_events w e =
     map (\<lambda>(name, vec). EvReset name) (gauges e) @ EvUpSet 1 # loop_events w (devices e)"

definition export_events :: "Exporter \<Rightarrow> event list" where
  "export_events e =
     map EvSend (concat (map (\<lambda>(name, vec). vec_Collect vec) (gauges e))) @
     [EvSend (Metric (DefaultNamespace @ ''_up'') [] (up e))]"

definition cycle_events :: "nvml \<Rightarrow> Exporter \<Rightarrow> event list" where
  "cycle_events w e = body_events w e @ export_events (fold replay (body_events w e) e)"

fun is_progress :: "event \<Rightarrow> bool" where
  "is_progress (EvQuery c d ok) = ok"
| "is_progress (EvGaugeSet name lvs x) = True"
| "is_progress ev = False"

subsection \<open>Reading a decimal string back\<close>

text \<open>
  The number a string of decimal digits denotes; it inverts \<open>digits\<close>, which makes
  \<open>Itoa\<close> injective. The equation of \<open>digits\<close> would loop as a rewrite rule.
\<close>

definition undigits :: "string \<Rightarrow> nat" where
  "undigits cs = foldl (\<lambda>acc c. 10 * acc + (of_char c - 48)) 0 cs"

declare digits.simps [simp del]

text \<open>
  What it is for a string to be the decimal rendering of an integer, said without
  \<open>digits\<close>: the string of a natural number is not empty, consists of the characters
  \<open>0\<close> to \<open>9\<close>, has no leading zero unless it is the single digit, and denotes the
  number; the string of a negative integer is a minus sign and the string of its absolute
  value.
\<close>

definition is_digit :: "char \<Rightarrow> bool" where
  "is_digit c \<longleftrightarrow> 48 \<le> (of_char c :: nat) \<and> (of_char c :: nat) \<le> 57"

definition numeral_of :: "nat \<Rightarrow> string \<Rightarrow> bool" where
  "numeral_of k cs \<longleftrightarrow>
     cs \<noteq> [] \<and> list_all is_digit cs \<and> (length cs = 1 \<or> hd cs \<noteq> CHR ''0'') \<and> undigits cs = k"

definition decimal :: "int \<Rightarrow> string \<Rightarrow> bool" where
  "decimal n s \<longleftrightarrow>
     (if n < 0 then (case s of [] \<Rightarrow> False | c # cs \<Rightarrow> c = CHR ''-'' \<and> numeral_of (nat (- n)) cs)
      else numeral_of (nat n) s)"

subsection \<open>A machine with two devices\<close>

text \<open>
  Two devices, the exporter \<^verbatim>\<open>NewExporter\<close> builds for them, and three behaviours of the
  management library: every query answers with the values of the scenario of section 8;
  device 1 fails its utilization query; device 1 answers its utilization query with
  (30, 40) and fails its temperature query.
\<close>

definition gpu0 :: Device where
  "gpu0 = \<lparr>i = 0, DeviceUUID = ''GPU-0'', DeviceName = ''Tesla K80''\<rparr>"

definition gpu1 :: Device where
  "gpu1 = \<lparr>i = 1, DeviceUUID = ''GPU-1'', DeviceName = ''Tesla K80''\<rparr>"

definition exporter2 :: Exporter where
  "exporter2 =
     \<lparr>up = 0,
      gauges = map (\<lambda>(name, info).
                 (name, NewGaugeVec DefaultNamespace name (help info) (labels info)))
               gaugeMetrics,
      devices = [gpu0, gpu1]\<rparr>"

definition nvml_ok :: nvml where
  "nvml_ok =
     \<lparr>GetUtilization = (\<lambda>d. Inr (45, 60)),
      GetTemperature = (\<lambda>d. Inr (167, 75)),
      GetPowerUsage = (\<lambda>d. Inr 120),
      GetMemoryInfo = (\<lambda>d. Inr \<lparr>Free = 1000000, Total = 4000000, Used = 3000000\<rparr>)\<rparr>"

definition nvml_util1 :: nvml where
  "nvml_util1 = nvml_ok\<lparr>GetUtilization :=
     (\<lambda>d. if d = gpu1 then Inl ''Unknown Error'' else Inr (45, 60))\<rparr>"

definition nvml_temp1 :: nvml where
  "nvml_temp1 = nvml_ok\<lparr>
     GetUtilization := (\<lambda>d. if d = gpu1 then Inr (30, 40) else Inr (45, 60)),
     GetTemperature := (\<lambda>d. if d = gpu1 then Inl ''Unknown Error'' else Inr (167, 75))\<rparr>"

section \<open>Properties\<close>

subsection \<open>Library functions\<close>

lemma of_char_digit: "k < 10 \<Longrightarrow> of_char (digit k) = (48 + k :: nat)"
  by (simp add: digit_def)

lemma undigits_snoc: "undigits (cs @ [c]) = 10 * undigits cs + (of_char c - 48)"
  by (simp add: undigits_def)

lemma undigits_digits: "undigits (digits n) = n"
proof (induction n rule: digits.induct)
  case (1 n)
  show ?case
  proof (cases "n < 10")
    case True
    then show ?thesis
      by (subst digits.simps) (simp add: undigits_def of_char_digit)
  next
    case False
    with 1 have "undigits (digits (n div 10)) = n div 10" by simp
    with False show ?thesis
      by (subst digits.simps) (simp add: undigits_snoc of_char_digit)
  qed
qed

lemma digits_inj: "digits n = digits m \<Longrightarrow> n = m"
  by (metis undigits_digits)

lemma digit_not_minus: "k < 10 \<Longrightarrow> digit k \<noteq> CHR ''-''"
proof
  assume "k < 10" and "digit k = CHR ''-''"
  then have "of_char (CHR ''-'') = (48 + k :: nat)"
    using of_char_digit [of k] by simp
  then show False by simp
qed

lemma digits_no_minus: "CHR ''-'' \<notin> set (digits n)"
proof (induction n rule: digits.induct)
  case (1 n)
  show ?case
  proof (cases "n < 10")
    case True
    then show ?thesis
      using digit_not_minus [of n] by (subst digits.simps) auto
  next
    case False
    with 1 have "CHR ''-'' \<notin> set (digits (n div 10))" by simp
    moreover have "digit (n mod 10) \<noteq> CHR ''-''" by (rule digit_not_minus) simp
    ultimately show ?thesis using False
      by (subst digits.simps) auto
  qed
qed

lemma Itoa_inj: "Itoa n = Itoa m \<Longrightarrow> n = m"
proof -
  assume eq: "Itoa n = Itoa m"
  have neg: "CHR ''-'' # digits a \<noteq> digits b" for a b
    using digits_no_minus [of b] by (metis list.set_intros(1))
  show ?thesis
  proof (cases "n < 0"; cases "m < 0")
    assume "n < 0" "m < 0"
    with eq have "nat (- n) = nat (- m)" by (auto simp: Itoa_def dest: digits_inj)
    with \<open>n < 0\<close> \<open>m < 0\<close> show ?thesis by simp
  next
    assume "n < 0" "\<not> m < 0"
    with eq neg show ?thesis by (simp add: Itoa_def)
  next
    assume "\<not> n < 0" "m < 0"
    with eq neg [of "nat (- m)" "nat n"] show ?thesis by (simp add: Itoa_def)
  next
    assume "\<not> n < 0" "\<not> m < 0"
    with eq have "nat n = nat m" by (auto simp: Itoa_def dest: digits_inj)
    with \<open>\<not> n < 0\<close> \<open>\<not> m < 0\<close> show ?thesis by simp
  qed
qed

lemma float64_exact: "\<bar>n\<bar> < 2 ^ 53 \<Longrightarrow> float64 n = real_of_int n"
proof -
  assume "\<bar>n\<bar> < 2 ^ 53"
  then have "bitlen \<bar>n\<bar> \<le> 53"
    by (simp add: bitlen_le_iff_power)
  then show ?thesis by (simp add: float64_def Let_def)
qed

subsection \<open>Writes on a well-formed exporter never panic\<close>

lemma catalog_names:
  "map fst gaugeMetrics =
     [''power_watts'', ''gpu_percent'', ''memory_free'', ''memory_total'', ''memory_used'',
      ''memory_percent'', ''temperature_fahrenheit'', ''temperature_celsius'']"
  by (simp add: gaugeMetrics_def)

lemma catalog_labels:
  "map_of gaugeMetrics name = Some info \<Longrightarrow> labels info = [''device_id'', ''device_uuid'', ''device_name'']"
  by (auto simp: gaugeMetrics_def split: if_splits)

lemma wf_lookup:
  assumes "wf_exporter e" and "name \<in> set (map fst gaugeMetrics)"
  shows "\<exists>vec. map_of (gauges e) name = Some vec \<and>
           variableLabels vec = [''device_id'', ''device_uuid'', ''device_name'']"
proof -
  from assms have "name \<in> fst ` set (gauges e)"
    by (simp add: wf_exporter_def)
  then obtain vec where in_set: "(name, vec) \<in> set (gauges e)" by auto
  with assms have look: "map_of (gauges e) name = Some vec"
    by (simp add: wf_exporter_def)
  from assms(1) in_set have "map_option labels (map_of gaugeMetrics name) = Some (variableLabels vec)"
    by (auto simp: wf_exporter_def)
  then have "variableLabels vec = [''device_id'', ''device_uuid'', ''device_name'']"
    by (auto dest: catalog_labels)
  with look show ?thesis by simp
qed

lemma map_fst_map_entry: "map fst (AList.map_entry k f al) = map fst al"
  by (induction al) auto

lemma set_map_entry:
  "(k', v') \<in> set (AList.map_entry k f al) \<Longrightarrow>
     (k', v') \<in> set al \<or> (k' = k \<and> (\<exists>v. (k, v) \<in> set al \<and> v' = f v))"
  by (induction al) (auto split: if_splits)

lemma wf_map_entry:
  assumes "wf_exporter e" and "\<And>vec. variableLabels (f vec) = variableLabels vec"
  shows "wf_exporter (e\<lparr>gauges := AList.map_entry k f (gauges e)\<rparr>)"
  using assms
  by (auto simp: wf_exporter_def map_fst_map_entry dest!: set_map_entry)

lemma wf_up [simp]: "wf_exporter (e\<lparr>up := x\<rparr>) = wf_exporter e"
  by (simp add: wf_exporter_def)

lemma wf_replay: "wf_exporter e \<Longrightarrow> wf_exporter (replay ev e)"
  by (cases ev) (simp_all add: wf_map_entry Reset_def WithLabelValues_Set_def)

lemma wf_fold_replay: "wf_exporter e \<Longrightarrow> wf_exporter (fold replay evs e)"
  by (induction evs arbitrary: e) (auto intro: wf_replay)

lemma run_events_Nil [simp]: "run_events [] s = s"
  by (simp add: run_events_def)

lemma run_events_append: "run_events (a @ b) s = run_events b (run_events a s)"
  by (simp add: run_events_def)

lemma exporter_run_events [simp]: "exporter (run_events evs s) = fold replay evs (exporter s)"
  by (simp add: run_events_def)

lemma events_run_events [simp]: "events (run_events evs s) = events s @ evs"
  by (simp add: run_events_def)

lemma emit_query: "emit (EvQuery c d ok) s = run_events [EvQuery c d ok] s"
  by (simp add: emit_def run_events_def)

lemma Printf_run: "Printf line s = run_events [EvPrintf line] s"
  by (simp add: Printf_def emit_def run_events_def)

lemma up_Set_run: "up_Set x s = run_events [EvUpSet x] s"
  by (simp add: up_Set_def emit_def run_events_def)

lemma gauge_Set_run:
  assumes "wf_exporter (exporter s)" and "name \<in> set (map fst gaugeMetrics)"
  shows "gauge_Set name [a, b, c] x s = Next (run_events [EvGaugeSet name [a, b, c] x] s)"
proof -
  from wf_lookup [OF assms] obtain vec where
    "map_of (gauges (exporter s)) name = Some vec"
    "variableLabels vec = [''device_id'', ''device_uuid'', ''device_name'']" by blast
  then show ?thesis
    by (simp add: gauge_Set_def emit_def run_events_def)
qed

lemma then_do_Next [simp]: "then_do (Next s) f = f s"
  by (simp add: then_do_def)

lemma then_do_Return [simp]: "then_do (Return s) f = Return s"
  by (simp add: then_do_def)

lemma run_events_Cons2:
  "run_events (ev # ev' # evs) s = run_events (ev' # evs) (run_events [ev] s)"
  by (simp add: run_events_def)

lemma wf_run_events: "wf_exporter (exporter s) \<Longrightarrow> wf_exporter (exporter (run_events evs s))"
  by (simp add: wf_fold_replay)

lemma loop_body_run:
  assumes "wf_exporter (exporter s)"
  shows "loop_body w d s =
           (if first_failure w d = None then Next (run_events (dev_events w d) s)
            else Return (run_events (dev_events w d) s))"
  using assms
  by (simp add: loop_body_def dev_events_def first_failure_def failure_events_def
        success_events_def label_values_def emit_query Printf_run up_Set_run gauge_Set_run
        wf_replay wf_fold_replay catalog_names run_events_Cons2
      del: replay.simps split: sum.splits prod.splits)

lemma device_loop_run:
  assumes "wf_exporter (exporter s)"
  shows "device_loop w ds s =
           (if list_all (\<lambda>d. first_failure w d = None) ds then Next (run_events (loop_events w ds) s)
            else Return (run_events (loop_events w ds) s))"
  using assms
proof (induction ds arbitrary: s)
  case Nil
  then show ?case by simp
next
  case (Cons d ds)
  then show ?case
    by (simp add: loop_body_run wf_fold_replay run_events_append)
qed

subsection \<open>The series after an iteration and after the loop\<close>

lemma keys_replay [simp]: "fst ` set (gauges (replay ev e)) = fst ` set (gauges e)"
  by (cases ev) (simp_all add: AList.dom_map_entry)

lemma keys_fold_replay [simp]: "fst ` set (gauges (fold replay evs e)) = fst ` set (gauges e)"
  by (induction evs arbitrary: e) simp_all

lemma devices_replay [simp]: "devices (replay ev e) = devices e"
  by (cases ev) simp_all

lemma devices_fold_replay [simp]: "devices (fold replay evs e) = devices e"
  by (induction evs arbitrary: e) simp_all

lemma series_gauge_set:
  "series name (replay (EvGaugeSet name' lvs x) e) =
     (if name' = name \<and> name \<in> fst ` set (gauges e) then AList.update lvs x (series name e)
      else series name e)"
  by (auto simp: series_def AList.map_of_map_entry WithLabelValues_Set_def map_of_eq_None_iff
           split: option.splits dest: map_of_SomeD intro: rev_image_eqI)

lemma series_reset:
  "series name (replay (EvReset name') e) = (if name' = name then [] else series name e)"
  by (auto simp: series_def AList.map_of_map_entry Reset_def split: option.splits)

lemma series_other [simp]:
  "series name (replay (EvUpSet x) e) = series name e"
  "series name (replay (EvQuery c d ok) e) = series name e"
  "series name (replay (EvPrintf line) e) = series name e"
  "series name (replay (EvSend m) e) = series name e"
  by (simp_all add: series_def)

lemma series_writes:
  assumes "name \<in> fst ` set (gauges e)" and "distinct (map fst ws)"
  shows "series name (fold replay (map (\<lambda>(n, v). EvGaugeSet n L (float64 v)) ws) e) =
           (if name \<in> fst ` set ws
            then AList.update L (float64 (the (map_of ws name))) (series name e)
            else series name e)"
  using assms
proof (induction ws arbitrary: e)
  case Nil
  then show ?case by simp
next
  case (Cons p ws)
  obtain n v where p: "p = (n, v)" by (cases p)
  let ?e1 = "replay (EvGaugeSet n L (float64 v)) e"
  have keys: "name \<in> fst ` set (gauges ?e1)"
    using Cons.prems(1) by (simp del: replay.simps)
  from Cons.prems(2) have dist: "distinct (map fst ws)" and fresh: "n \<notin> fst ` set ws"
    by (simp_all add: p)
  note IH = Cons.IH [OF keys dist]
  show ?case
  proof (cases "n = name")
    case True
    with fresh have "name \<notin> fst ` set ws" by simp
    with IH True Cons.prems(1) show ?thesis
      by (simp add: p series_gauge_set del: replay.simps)
  next
    case False
    with IH show ?thesis
      by (simp add: p series_gauge_set del: replay.simps)
  qed
qed

lemma series_success:
  assumes "name \<in> fst ` set (gauges e)" and "distinct (map fst ws)"
  shows "series name (fold replay (success_events c d ws) e) =
           (if name \<in> fst ` set ws
            then AList.update (label_values d) (float64 (the (map_of ws name))) (series name e)
            else series name e)"
  using series_writes [OF assms, of "label_values d"]
  by (simp add: success_events_def)

lemma series_failure:
  "series name (fold replay (failure_events c d err) e) = series name e"
  by (simp add: failure_events_def series_def)

lemma dev_series:
  assumes "name \<in> fst ` set (gauges e)"
  shows "series name (fold replay (dev_events w d) e) =
           (if name \<in> set (written (first_failure w d))
            then AList.update (label_values d) (the (reading w name d)) (series name e)
            else series name e)"
proof (cases "name \<in> set (written None)")
  case False
  then show ?thesis
    using assms
    by (simp add: dev_events_def first_failure_def series_success series_failure
          del: replay.simps split: sum.splits prod.splits)
next
  case True
  then have "name = ''gpu_percent'' \<or> name = ''memory_percent'' \<or> name = ''temperature_celsius'' \<or>
      name = ''temperature_fahrenheit'' \<or> name = ''power_watts'' \<or> name = ''memory_free'' \<or>
      name = ''memory_total'' \<or> name = ''memory_used''"
    by simp
  then show ?thesis
    using assms
    apply (elim disjE)
    apply (simp_all add: dev_events_def first_failure_def series_success series_failure
          reading_def del: replay.simps split: sum.splits prod.splits)
    done
qed

lemma label_values_inj: "label_values d = label_values d' \<Longrightarrow> d = d'"
  by (cases d, cases d') (auto simp: label_values_def dest: Itoa_inj)

lemma series_distinct_replay:
  "distinct (map fst (series name e)) \<Longrightarrow> distinct (map fst (series name (replay ev e)))"
  by (cases ev) (simp_all add: series_gauge_set series_reset AList.distinct_update del: replay.simps)

lemma series_distinct_fold:
  "distinct (map fst (series name e)) \<Longrightarrow> distinct (map fst (series name (fold replay evs e)))"
  by (induction evs arbitrary: e) (simp_all add: series_distinct_replay del: replay.simps)

lemma map_add_single: "m ++ ([k \<mapsto> v] ++ n) = m(k \<mapsto> v) ++ n"
  by (rule ext) (simp add: map_add_def split: option.splits)

lemma seq_updates:
  assumes "g x = (k, v)"
  shows "(if wr then m(k \<mapsto> v) else m) ++ map_of (rev (map g cov)) =
           m ++ map_of (rev (map g ((if wr then [x] else []) @ cov)))"
  using assms by (cases wr) (simp_all add: map_add_single)

lemma loop_series_map:
  assumes "name \<in> fst ` set (gauges e)"
  shows "map_of (series name (fold replay (loop_events w ds) e)) =
           map_of (series name e) ++
           map_of (rev (map (\<lambda>d. (label_values d, the (reading w name d))) (covered w name ds)))"
  using assms
proof (induction ds arbitrary: e)
  case Nil
  then show ?case by simp
next
  case (Cons d ds)
  let ?e1 = "fold replay (dev_events w d) e"
  let ?g = "\<lambda>d. (label_values d, the (reading w name d))"
  let ?wr = "name \<in> set (written (first_failure w d))"
  have keys: "name \<in> fst ` set (gauges ?e1)"
    using Cons.prems by simp
  note IH = Cons.IH [OF keys]
  have step: "map_of (series name ?e1) =
      (if ?wr then (map_of (series name e))(label_values d \<mapsto> the (reading w name d))
       else map_of (series name e))"
    using Cons.prems
    by (simp only: dev_series AList.update_conv' if_distrib [of map_of])
  show ?case
  proof (cases "first_failure w d = None")
    case True
    have "map_of (series name (fold replay (loop_events w (d # ds)) e)) =
          map_of (series name (fold replay (loop_events w ds) ?e1))"
      using True by (simp del: replay.simps)
    also have "\<dots> = map_of (series name ?e1) ++ map_of (rev (map ?g (covered w name ds)))"
      by (rule IH)
    also have "\<dots> = map_of (series name e) ++
        map_of (rev (map ?g ((if ?wr then [d] else []) @ covered w name ds)))"
      unfolding step by (rule seq_updates) simp
    also have "(if ?wr then [d] else []) @ covered w name ds = covered w name (d # ds)"
      using True by (simp del: written.simps)
    finally show ?thesis .
  next
    case False
    then obtain c where ff: "first_failure w d = Some c" by auto
    have "map_of (series name (fold replay (loop_events w (d # ds)) e)) = map_of (series name ?e1)"
      using ff by (simp del: replay.simps)
    also have "\<dots> = (if ?wr then (map_of (series name e))(label_values d \<mapsto> the (reading w name d))
       else map_of (series name e)) ++ map_of (rev (map ?g []))"
      unfolding step by simp
    also have "\<dots> = map_of (series name e) ++ map_of (rev (map ?g ((if ?wr then [d] else []) @ [])))"
      by (rule seq_updates) simp
    also have "(if ?wr then [d] else []) @ [] = covered w name (d # ds)"
      using ff by (simp del: written.simps)
    finally show ?thesis .
  qed
qed

subsection \<open>The cycle performs the events of its closed form\<close>

lemma fold_map_entry_Cons:
  "fst p \<notin> set ks \<Longrightarrow>
     fold (\<lambda>k. AList.map_entry k f) ks (p # al) = p # fold (\<lambda>k. AList.map_entry k f) ks al"
  by (induction ks arbitrary: al) auto

lemma fold_map_entry_all:
  "distinct (map fst al) \<Longrightarrow>
     fold (\<lambda>k. AList.map_entry k f) (map fst al) al = map (\<lambda>(k, v). (k, f v)) al"
proof (induction al)
  case Nil
  then show ?case by simp
next
  case (Cons p al)
  obtain k v where p: "p = (k, v)" by (cases p)
  from Cons.prems have fresh: "k \<notin> set (map fst al)" and dist: "distinct (map fst al)"
    by (simp_all add: p)
  have "fold (\<lambda>k. AList.map_entry k f) (map fst (p # al)) (p # al) =
        fold (\<lambda>k. AList.map_entry k f) (map fst al) ((k, f v) # al)"
    by (simp add: p)
  also have "\<dots> = (k, f v) # fold (\<lambda>k. AList.map_entry k f) (map fst al) al"
    using fresh by (intro fold_map_entry_Cons) simp
  also have "\<dots> = map (\<lambda>(k, v). (k, f v)) (p # al)"
    using Cons.IH [OF dist] by (simp add: p)
  finally show ?case .
qed

lemma fold_replay_resets:
  "fold replay (map (\<lambda>(name, vec). EvReset name) al) e =
     e\<lparr>gauges := fold (\<lambda>k. AList.map_entry k Reset) (map fst al) (gauges e)\<rparr>"
  by (induction al arbitrary: e) (auto simp: case_prod_beta)

lemma reset_gauges_run:
  assumes "distinct (map fst (gauges (exporter s)))"
  shows "reset_gauges s = run_events (map (\<lambda>(name, vec). EvReset name) (gauges (exporter s))) s"
  using fold_map_entry_all [OF assms, of Reset]
  by (simp add: reset_gauges_def run_events_def fold_replay_resets)

lemma fold_replay_sends [simp]: "fold replay (map EvSend ms) e = e"
  by (induction ms) simp_all

lemma collect_gauges_run:
  "collect_gauges s =
     run_events (map EvSend (concat (map (\<lambda>(name, vec). vec_Collect vec) (gauges (exporter s))))) s"
  by (simp add: collect_gauges_def run_events_def)

lemma send_up_run:
  "send_up s = run_events [EvSend (Metric (DefaultNamespace @ ''_up'') [] (up (exporter s)))] s"
  by (simp add: send_up_def emit_def run_events_def)

lemma GetTelemetryFromNVML_run:
  assumes "wf_exporter (exporter s)"
  shows "GetTelemetryFromNVML w s = Next (run_events (loop_events w (devices (exporter s))) s)"
  by (simp add: GetTelemetryFromNVML_def device_loop_run [OF assms])

lemma Collect_run:
  assumes "wf_exporter (exporter s)"
  shows "Collect w s = Next (run_events (cycle_events w (exporter s)) s)"
proof -
  let ?resets = "map (\<lambda>(name, vec). EvReset name) (gauges (exporter s))"
  let ?body = "body_events w (exporter s)"
  from assms have dist: "distinct (map fst (gauges (exporter s)))"
    by (simp add: wf_exporter_def)
  have s2: "up_Set 1 (reset_gauges s) = run_events (?resets @ [EvUpSet 1]) s"
    by (simp only: reset_gauges_run [OF dist] up_Set_run run_events_append)
  have wf2: "wf_exporter (exporter (run_events (?resets @ [EvUpSet 1]) s))"
    using assms by (simp only: exporter_run_events wf_fold_replay)
  have dev2: "devices (exporter (run_events (?resets @ [EvUpSet 1]) s)) = devices (exporter s)"
    by (simp only: exporter_run_events devices_fold_replay)
  have s3: "GetTelemetryFromNVML w (up_Set 1 (reset_gauges s)) = Next (run_events ?body s)"
    unfolding s2 GetTelemetryFromNVML_run [OF wf2] dev2
    by (simp add: body_events_def run_events_append)
  show ?thesis
    unfolding Collect_def s3
    by (simp add: collect_gauges_run send_up_run cycle_events_def export_events_def
          run_events_append del: replay.simps)
qed

lemma cycle_replay: "wf_exporter e \<Longrightarrow> cycle w e = fold replay (cycle_events w e) e"
  by (simp add: cycle_def Collect_run)

lemma cycle_trace_events: "wf_exporter e \<Longrightarrow> cycle_trace w e = cycle_events w e"
  by (simp add: cycle_trace_def Collect_run)

lemma fold_replay_export [simp]: "fold replay (export_events e') e = e"
  by (simp add: export_events_def)

lemma cycle_body: "wf_exporter e \<Longrightarrow> cycle w e = fold replay (body_events w e) e"
  by (simp add: cycle_replay cycle_events_def del: replay.simps)

subsection \<open>The registry at the end of a cycle\<close>

lemma written_catalog: "set (written None) = set (map fst gaugeMetrics)"
  by (auto simp: catalog_names)

lemma up_fold_gauge_sets:
  "up (fold replay (map (\<lambda>(n, v). EvGaugeSet n L (float64 v)) ws) e) = up e"
  by (induction ws arbitrary: e) (auto simp: case_prod_beta)

lemma up_success [simp]: "up (fold replay (success_events c d ws) e) = up e"
  by (simp add: success_events_def up_fold_gauge_sets)

lemma up_failure [simp]: "up (fold replay (failure_events c d err) e) = 0"
  by (simp add: failure_events_def)

lemma up_dev:
  "up (fold replay (dev_events w d) e) = (if first_failure w d = None then up e else 0)"
  by (simp add: dev_events_def first_failure_def del: replay.simps split: sum.splits prod.splits)

lemma up_loop:
  "up (fold replay (loop_events w ds) e) =
     (if \<forall>d \<in> set ds. first_failure w d = None then up e else 0)"
  by (induction ds arbitrary: e) (auto simp: up_dev simp del: replay.simps)

lemma series_resets:
  assumes "distinct (map fst (gauges e))"
  shows "series name (fold replay (map (\<lambda>(name, vec). EvReset name) (gauges e)) e) = []"
  using fold_map_entry_all [OF assms, of Reset]
  by (simp add: fold_replay_resets series_def map_of_map Reset_def case_prod_beta
      split: option.splits)

lemma covered_all:
  assumes "\<forall>d \<in> set ds. first_failure w d = None" and "name \<in> set (written None)"
  shows "covered w name ds = ds"
  using assms by (induction ds) (simp_all del: written.simps)

lemma covered_prefix:
  assumes "k < length ds" and "\<forall>j < k. first_failure w (ds ! j) = None"
    and "first_failure w (ds ! k) = Some c" and "name \<in> set (written None)"
  shows "covered w name ds =
           take k ds @ (if name \<in> set (written (Some c)) then [ds ! k] else [])"
  using assms
proof (induction ds arbitrary: k)
  case Nil
  then show ?case by simp
next
  case (Cons d ds)
  show ?case
  proof (cases k)
    case 0
    with Cons.prems show ?thesis by (simp del: written.simps)
  next
    case (Suc k')
    with Cons.prems have head: "first_failure w d = None" by auto
    from Suc Cons.prems have "k' < length ds" "\<forall>j < k'. first_failure w (ds ! j) = None"
      "first_failure w (ds ! k') = Some c" by auto
    from Cons.IH [OF this Cons.prems(4)] head Suc Cons.prems(4) show ?thesis
      by (simp del: written.simps)
  qed
qed

lemma covered_written:
  "d \<in> set (covered w name ds) \<Longrightarrow> name \<in> set (written (first_failure w d))"
  by (induction ds) (auto simp del: written.simps split: if_splits)

lemma covered_subset: "set (covered w name ds) \<subseteq> set ds"
  by (induction ds) (auto simp del: written.simps split: if_splits)

lemma reading_utilization:
  assumes "GetUtilization w d = Inr (g, m)"
  shows "reading w ''gpu_percent'' d = Some (float64 g)"
    and "reading w ''memory_percent'' d = Some (float64 m)"
  using assms by (simp_all add: reading_def)

lemma reading_temperature:
  assumes "GetTemperature w d = Inr (f, c)"
  shows "reading w ''temperature_fahrenheit'' d = Some (float64 f)"
    and "reading w ''temperature_celsius'' d = Some (float64 c)"
  using assms by (simp_all add: reading_def)

lemma reading_power:
  assumes "GetPowerUsage w d = Inr p"
  shows "reading w ''power_watts'' d = Some (float64 p)"
  using assms by (simp add: reading_def)

lemma reading_memory:
  assumes "GetMemoryInfo w d = Inr mem"
  shows "reading w ''memory_free'' d = Some (float64 (Free mem))"
    and "reading w ''memory_total'' d = Some (float64 (Total mem))"
    and "reading w ''memory_used'' d = Some (float64 (Used mem))"
  using assms by (simp_all add: reading_def)

lemma first_failure_cases:
  shows "first_failure w d \<noteq> Some Utilization \<Longrightarrow> \<exists>g m. GetUtilization w d = Inr (g, m)"
    and "first_failure w d \<notin> {Some Utilization, Some Temperature} \<Longrightarrow>
           \<exists>f c. GetTemperature w d = Inr (f, c)"
    and "first_failure w d \<notin> {Some Utilization, Some Temperature, Some PowerUsage} \<Longrightarrow>
           \<exists>p. GetPowerUsage w d = Inr p"
    and "first_failure w d = None \<Longrightarrow> \<exists>mem. GetMemoryInfo w d = Inr mem"
proof -
  show "first_failure w d \<noteq> Some Utilization \<Longrightarrow> \<exists>g m. GetUtilization w d = Inr (g, m)"
    by (cases "GetUtilization w d") (auto simp: first_failure_def)
  show "first_failure w d \<notin> {Some Utilization, Some Temperature} \<Longrightarrow>
           \<exists>f c. GetTemperature w d = Inr (f, c)"
    by (cases "GetTemperature w d") (auto simp: first_failure_def split: if_splits)
  show "first_failure w d \<notin> {Some Utilization, Some Temperature, Some PowerUsage} \<Longrightarrow>
           \<exists>p. GetPowerUsage w d = Inr p"
    by (cases "GetPowerUsage w d") (auto simp: first_failure_def split: if_splits)
  show "first_failure w d = None \<Longrightarrow> \<exists>mem. GetMemoryInfo w d = Inr mem"
    by (cases "GetMemoryInfo w d") (auto simp: first_failure_def split: if_splits)
qed

lemma written_reading:
  assumes "name \<in> set (written (first_failure w d))"
  shows "\<exists>x. reading w name d = Some x"
proof (cases "first_failure w d")
  case None
  from first_failure_cases [of w d] None obtain g m f c p mem where
    "GetUtilization w d = Inr (g, m)" "GetTemperature w d = Inr (f, c)"
    "GetPowerUsage w d = Inr p" "GetMemoryInfo w d = Inr mem"
    by auto
  note r = reading_utilization [OF this(1)] reading_temperature [OF this(2)]
    reading_power [OF this(3)] reading_memory [OF this(4)]
  from assms None have "name \<in> set (written None)" by simp
  then show ?thesis using r by auto
next
  case (Some cl)
  show ?thesis
  proof (cases cl)
    case Utilization
    with assms Some show ?thesis by simp
  next
    case Temperature
    with first_failure_cases(1) [of w d] Some obtain g m where
      "GetUtilization w d = Inr (g, m)" by auto
    note r = reading_utilization [OF this]
    from assms Some Temperature show ?thesis using r by auto
  next
    case PowerUsage
    with first_failure_cases(1,2) [of w d] Some obtain g m f c where
      "GetUtilization w d = Inr (g, m)" "GetTemperature w d = Inr (f, c)" by auto
    note r = reading_utilization [OF this(1)] reading_temperature [OF this(2)]
    from assms Some PowerUsage show ?thesis using r by auto
  next
    case MemoryInfo
    with first_failure_cases(1,2,3) [of w d] Some obtain g m f c p where
      "GetUtilization w d = Inr (g, m)" "GetTemperature w d = Inr (f, c)"
      "GetPowerUsage w d = Inr p" by auto
    note r = reading_utilization [OF this(1)] reading_temperature [OF this(2)]
      reading_power [OF this(3)]
    from assms Some MemoryInfo show ?thesis using r by auto
  qed
qed

lemma map_of_injective_keys:
  assumes "x \<in> set xs" and "\<And>a b. k a = k b \<Longrightarrow> a = b"
  shows "map_of (map (\<lambda>a. (k a, v a)) xs) (k x) = Some (v x)"
  using assms by (induction xs) auto

lemma body_replay:
  "fold replay (body_events w e) e =
     fold replay (loop_events w (devices e))
       ((fold replay (map (\<lambda>(name, vec). EvReset name) (gauges e)) e)\<lparr>up := 1\<rparr>)"
  by (simp add: body_events_def)

lemma cycle_up:
  assumes "wf_exporter e"
  shows "up (cycle w e) = (if \<forall>d \<in> set (devices e). first_failure w d = None then 1 else 0)"
  by (simp add: cycle_body [OF assms] body_replay up_loop del: replay.simps)

lemma cycle_series_map:
  assumes "wf_exporter e" and "name \<in> set (map fst gaugeMetrics)"
  shows "map_of (series name (cycle w e)) =
           map_of (rev (map (\<lambda>d. (label_values d, the (reading w name d)))
                    (covered w name (devices e))))"
proof -
  let ?e1 = "(fold replay (map (\<lambda>(name, vec). EvReset name) (gauges e)) e)\<lparr>up := 1\<rparr>"
  from assms have dist: "distinct (map fst (gauges e))" and keys: "name \<in> fst ` set (gauges e)"
    by (simp_all add: wf_exporter_def)
  have keys1: "name \<in> fst ` set (gauges ?e1)"
    using keys by simp
  have empty: "series name ?e1 = []"
    using series_resets [OF dist, of name] by (simp add: series_def)
  show ?thesis
    unfolding cycle_body [OF assms(1)] body_replay
    using loop_series_map [OF keys1, of w "devices e"]
    by (simp add: empty del: replay.simps)
qed

lemma cycle_series_distinct: "wf_exporter e \<Longrightarrow> distinct (map fst (series name (cycle w e)))"
proof -
  assume wf: "wf_exporter e"
  let ?e1 = "(fold replay (map (\<lambda>(name, vec). EvReset name) (gauges e)) e)\<lparr>up := 1\<rparr>"
  from wf have dist: "distinct (map fst (gauges e))"
    by (simp add: wf_exporter_def)
  have empty: "series name ?e1 = []"
    using series_resets [OF dist, of name] by (simp add: series_def)
  then have "distinct (map fst (series name ?e1))" by simp
  then show ?thesis
    unfolding cycle_body [OF wf] body_replay by (rule series_distinct_fold)
qed

lemma cycle_series_keys:
  assumes "wf_exporter e" and "name \<in> set (map fst gaugeMetrics)"
  shows "fst ` set (series name (cycle w e)) = label_values ` set (covered w name (devices e))"
proof -
  have "fst ` set (series name (cycle w e)) = dom (map_of (series name (cycle w e)))"
    by (simp add: dom_map_of_conv_image_fst)
  also have "\<dots> = label_values ` set (covered w name (devices e))"
    unfolding cycle_series_map [OF assms]
    by (simp add: dom_map_of_conv_image_fst image_image)
  finally show ?thesis .
qed

lemma cycle_series_value:
  assumes "wf_exporter e" and "name \<in> set (map fst gaugeMetrics)"
    and "d \<in> set (covered w name (devices e))"
  shows "map_of (series name (cycle w e)) (label_values d) = reading w name d"
    and "reading w name d \<noteq> None"
proof -
  from written_reading [OF covered_written [OF assms(3)]]
  obtain x where x: "reading w name d = Some x" by blast
  then show "reading w name d \<noteq> None" by simp
  from assms(3) have "d \<in> set (rev (covered w name (devices e)))" by simp
  then have "map_of (map (\<lambda>d. (label_values d, the (reading w name d)))
        (rev (covered w name (devices e)))) (label_values d) = Some (the (reading w name d))"
    by (rule map_of_injective_keys) (rule label_values_inj)
  then show "map_of (series name (cycle w e)) (label_values d) = reading w name d"
    unfolding cycle_series_map [OF assms(1,2)] by (simp add: rev_map x)
qed

lemma series_unknown:
  assumes "wf_exporter e" and "name \<notin> set (map fst gaugeMetrics)"
  shows "series name (cycle w e) = []"
proof -
  from assms have "name \<notin> fst ` set (gauges e)"
    by (simp add: wf_exporter_def)
  then have "name \<notin> fst ` set (gauges (cycle w e))"
    by (simp add: cycle_body [OF assms(1)])
  then have "map_of (gauges (cycle w e)) name = None"
    by (simp add: map_of_eq_None_iff)
  then show ?thesis
    by (simp add: series_def)
qed

subsection \<open>The exporter built at startup\<close>

lemma catalog_distinct: "distinct (map fst gaugeMetrics)"
  by (simp add: catalog_names)

lemma NewExporter_wf:
  assumes "NewExporter (Inr ds) = Inr e"
  shows "wf_exporter e"
proof -
  let ?new = "\<lambda>(name, info). (name, NewGaugeVec DefaultNamespace name (help info) (labels info))"
  from assms have g: "gauges e = map ?new gaugeMetrics"
    by (auto simp: NewExporter_def)
  have names: "map fst (gauges e) = map fst gaugeMetrics"
    unfolding g by (simp add: case_prod_beta comp_def)
  have "map_option labels (map_of gaugeMetrics name) = Some (variableLabels vec)"
    if "(name, vec) \<in> set (gauges e)" for name vec
  proof -
    from that obtain info where info: "(name, info) \<in> set gaugeMetrics"
      and vec: "vec = NewGaugeVec DefaultNamespace name (help info) (labels info)"
      unfolding g by auto
    from info have "map_of gaugeMetrics name = Some info"
      using catalog_distinct by simp
    then show ?thesis
      by (simp add: vec NewGaugeVec_def)
  qed
  then show ?thesis
    unfolding wf_exporter_def names using catalog_distinct by auto
qed

lemma exporter2_new: "NewExporter (Inr [gpu0, gpu1]) = Inr exporter2"
  by (simp add: NewExporter_def exporter2_def)

lemma wf_exporter2: "wf_exporter exporter2"
  using exporter2_new by (rule NewExporter_wf)

lemma wf_cycle: "wf_exporter e \<Longrightarrow> wf_exporter (cycle w e)"
  by (simp add: cycle_replay wf_fold_replay)

lemma Itoa_0: "Itoa 0 = ''0''"
  by code_simp

lemma Itoa_1: "Itoa 1 = ''1''"
  by code_simp

lemma labels_gpu0: "label_values gpu0 = [''0'', ''GPU-0'', ''Tesla K80'']"
  by (simp add: label_values_def gpu0_def Itoa_0)

lemma labels_gpu1: "label_values gpu1 = [''1'', ''GPU-1'', ''Tesla K80'']"
  by (simp add: label_values_def gpu1_def Itoa_1)

lemma gpu0_neq_gpu1: "gpu0 \<noteq> gpu1"
  by (simp add: gpu0_def gpu1_def)

lemma is_Next_Collect: "wf_exporter (exporter s) \<Longrightarrow> is_Next (Collect w s)"
  by (simp add: Collect_run)

text \<open>
  Claim C3. When every query of every device succeeds, a cycle started from a well-formed
  exporter completes with \<open>up\<close> equal to 1, and each of the eight catalog metrics holds one entry per enumerated device:
  the keys of its series are pairwise different, they are exactly the label triples
  (index, uuid, name) of the devices, there are as many entries as devices, and the entry
  of a device holds the value the device answered in this cycle.
\<close>

theorem C3_all_queries_succeed:
  assumes "wf_exporter e" and "\<forall>d \<in> set (devices e). first_failure w d = None"
  shows "is_Next (Collect w \<lparr>exporter = e, events = []\<rparr>) \<and> up (cycle w e) = 1 \<and>
    (\<forall>name \<in> set (map fst gaugeMetrics).
       distinct (map fst (series name (cycle w e))) \<and>
       fst ` set (series name (cycle w e)) = label_values ` set (devices e) \<and>
       length (series name (cycle w e)) = card (set (devices e)) \<and>
       (\<forall>d \<in> set (devices e).
          map_of (series name (cycle w e)) (label_values d) = reading w name d \<and>
          reading w name d \<noteq> None))"
proof (intro conjI ballI)
  show "is_Next (Collect w \<lparr>exporter = e, events = []\<rparr>)"
    using assms(1) by (simp add: is_Next_Collect)
  show "up (cycle w e) = 1"
    using assms by (simp add: cycle_up)
next
  fix name assume name: "name \<in> set (map fst gaugeMetrics)"
  then have cov: "covered w name (devices e) = devices e"
    using assms(2) by (intro covered_all) (simp_all only: written_catalog)
  show dist: "distinct (map fst (series name (cycle w e)))"
    using assms(1) by (rule cycle_series_distinct)
  show keys: "fst ` set (series name (cycle w e)) = label_values ` set (devices e)"
    using cycle_series_keys [OF assms(1) name, of w] by (simp only: cov)
  have "length (series name (cycle w e)) = card (set (map fst (series name (cycle w e))))"
    using distinct_card [OF dist] by simp
  also have "\<dots> = card (label_values ` set (devices e))"
    using keys by simp
  also have "\<dots> = card (set (devices e))"
    by (rule card_image) (auto simp: inj_on_def dest: label_values_inj)
  finally show "length (series name (cycle w e)) = card (set (devices e))" .
  fix d assume "d \<in> set (devices e)"
  then have d: "d \<in> set (covered w name (devices e))" by (simp only: cov)
  show "map_of (series name (cycle w e)) (label_values d) = reading w name d"
    using assms(1) name d by (rule cycle_series_value)
  show "reading w name d \<noteq> None"
    using assms(1) name d by (rule cycle_series_value)
qed

lemma nvml_ok_all: "first_failure nvml_ok d = None"
  by (simp add: first_failure_def nvml_ok_def)

theorem C3_all_queries_succeed_witness:
  "wf_exporter exporter2 \<and> devices exporter2 = [gpu0, gpu1] \<and>
   first_failure nvml_ok gpu0 = None \<and> first_failure nvml_ok gpu1 = None \<and>
   up (cycle nvml_ok exporter2) = 1 \<and>
   length (series ''memory_used'' (cycle nvml_ok exporter2)) = 2 \<and>
   map_of (series ''gpu_percent'' (cycle nvml_ok exporter2)) [''1'', ''GPU-1'', ''Tesla K80''] = Some 45"
proof -
  have ok: "\<forall>d \<in> set (devices exporter2). first_failure nvml_ok d = None"
    by (simp add: nvml_ok_all)
  have names: "''memory_used'' \<in> set (map fst gaugeMetrics)" "''gpu_percent'' \<in> set (map fst gaugeMetrics)"
    by (simp_all only: catalog_names) simp_all
  have devs: "devices exporter2 = [gpu0, gpu1]"
    by (simp add: exporter2_def)
  have r: "reading nvml_ok ''gpu_percent'' gpu1 = Some 45"
    by (simp add: reading_def nvml_ok_def float64_exact)
  have card2: "card (set (devices exporter2)) = 2"
    using gpu0_neq_gpu1 by (simp add: devs)
  have mem: "gpu1 \<in> set (devices exporter2)"
    by (simp add: devs)
  note main = C3_all_queries_succeed [OF wf_exporter2 ok]
  note per = conjunct2 [OF conjunct2 [OF main]]
  from main have up1: "up (cycle nvml_ok exporter2) = 1"
    by blast
  from bspec [OF per names(1)]
  have len: "length (series ''memory_used'' (cycle nvml_ok exporter2)) = 2"
    unfolding card2 by blast
  from bspec [OF per names(2)] mem
  have "map_of (series ''gpu_percent'' (cycle nvml_ok exporter2)) (label_values gpu1) =
          reading nvml_ok ''gpu_percent'' gpu1"
    by blast
  then have val: "map_of (series ''gpu_percent'' (cycle nvml_ok exporter2))
      [''1'', ''GPU-1'', ''Tesla K80''] = Some 45"
    by (simp only: labels_gpu1 r)
  from wf_exporter2 devs nvml_ok_all up1 len val show ?thesis
    by blast
qed

subsection \<open>The empty device list and the reset\<close>

lemma sent_append [simp]: "sent (a @ b) = sent a @ sent b"
  by (induction a rule: sent.induct) simp_all

lemma sent_sends [simp]: "sent (map EvSend ms) = ms"
  by (induction ms) simp_all

lemma sent_resets [simp]: "sent (map (\<lambda>(name, vec). EvReset name) al) = []"
  by (induction al) (simp_all add: case_prod_beta)

lemma series_Reset_all [simp]: "series name (e\<lparr>gauges := map (\<lambda>(name, vec). (name, Reset vec)) al\<rparr>) = []"
proof -
  have "map_of (map (\<lambda>(name, vec). (name, Reset vec)) al) = map_option Reset \<circ> map_of al"
    by (rule map_of_map)
  then show ?thesis
    by (simp add: series_def Reset_def split: option.splits)
qed

text \<open>
  Claim C10. With an empty device list a cycle completes, \<open>up\<close> ends at 1, every series is
  empty, and the only metric sent is \<open>nvml_up\<close> with value 1. This holds from any exporter
  state.
\<close>

theorem C10_empty_device_list:
  "is_Next (Collect w \<lparr>exporter = e\<lparr>devices := []\<rparr>, events = []\<rparr>) \<and>
   up (cycle w (e\<lparr>devices := []\<rparr>)) = 1 \<and>
   (\<forall>name. series name (cycle w (e\<lparr>devices := []\<rparr>)) = []) \<and>
   concat (map (\<lambda>(name, vec). metrics vec) (gauges (cycle w (e\<lparr>devices := []\<rparr>)))) = [] \<and>
   sent (cycle_trace w (e\<lparr>devices := []\<rparr>)) = [Metric ''nvml_up'' [] 1]"
proof -
  let ?s = "\<lparr>exporter = e\<lparr>devices := []\<rparr>, events = []\<rparr>"
  let ?e1 = "e\<lparr>devices := [], gauges := map (\<lambda>(name, vec). (name, Reset vec)) (gauges e), up := 1\<rparr>"
  have run: "Collect w ?s =
      Next \<lparr>exporter = ?e1,
            events = map (\<lambda>(name, vec). EvReset name) (gauges e) @ [EvUpSet 1] @
              map EvSend (concat (map (\<lambda>(name, vec). vec_Collect vec) (gauges ?e1))) @
              [EvSend (Metric (DefaultNamespace @ ''_up'') [] 1)]\<rparr>"
    by (simp add: Collect_def GetTelemetryFromNVML_def reset_gauges_def up_Set_def emit_def
          collect_gauges_def send_up_def)
  have none: "concat (map (\<lambda>(name, vec). vec_Collect vec) (gauges ?e1)) = []"
    by (simp add: vec_Collect_def Reset_def case_prod_beta)
  have ser: "series name ?e1 = []" for name
    using series_Reset_all [where name = name and e = "e\<lparr>devices := []\<rparr>" and al = "gauges e"]
    by (simp add: series_def)
  show ?thesis
  proof (intro conjI allI)
    show "is_Next (Collect w ?s)"
      unfolding run by simp
    show "up (cycle w (e\<lparr>devices := []\<rparr>)) = 1"
      unfolding cycle_def run by simp
    show "series name (cycle w (e\<lparr>devices := []\<rparr>)) = []" for name
      unfolding cycle_def run using ser [of name] by simp
    show "concat (map (\<lambda>(name, vec). metrics vec) (gauges (cycle w (e\<lparr>devices := []\<rparr>)))) = []"
      unfolding cycle_def run by (simp add: Reset_def case_prod_beta)
    show "sent (cycle_trace w (e\<lparr>devices := []\<rparr>)) = [Metric ''nvml_up'' [] 1]"
      unfolding cycle_trace_def run none by (simp add: DefaultNamespace_def)
  qed
qed

text \<open>
  Claim C7. The reset loop of \<^verbatim>\<open>Collect\<close> is idempotent on the exporter: a second reset
  changes nothing, after one reset no series has an entry left, and names, descriptors
  and label schemas of the vectors are those from before.
\<close>

theorem C7_reset_idempotent:
  "exporter (reset_gauges (reset_gauges s)) = exporter (reset_gauges s) \<and>
   (\<forall>name. series name (exporter (reset_gauges s)) = []) \<and>
   map (\<lambda>(name, vec). metrics vec) (gauges (exporter (reset_gauges s))) =
     replicate (length (gauges (exporter s))) [] \<and>
   map (\<lambda>(name, vec). (name, Name vec, Help vec, variableLabels vec)) (gauges (exporter (reset_gauges s))) =
     map (\<lambda>(name, vec). (name, Name vec, Help vec, variableLabels vec)) (gauges (exporter s))"
proof -
  have "series name (exporter (reset_gauges s)) = []" for name
    using series_Reset_all [where name = name and e = "exporter s" and al = "gauges (exporter s)"]
    by (simp add: reset_gauges_def series_def)
  then show ?thesis
    by (simp add: reset_gauges_def Reset_def case_prod_beta comp_def map_replicate_const)
qed

subsection \<open>A failing query\<close>

lemma first_failure_Utilization:
  "first_failure w d = Some Utilization \<longleftrightarrow> isl (GetUtilization w d)"
  by (simp add: first_failure_def)

lemma cycle_up_failed:
  assumes "wf_exporter e" and "k < length (devices e)"
    and "first_failure w (devices e ! k) = Some c"
  shows "up (cycle w e) = 0"
proof -
  from assms(2) have "devices e ! k \<in> set (devices e)" by simp
  with assms(3) have "\<not> (\<forall>d \<in> set (devices e). first_failure w d = None)" by force
  then show ?thesis
    by (simp only: cycle_up [OF assms(1)] if_False)
qed

lemma cycle_covered_prefix:
  assumes "k < length (devices e)"
    and "\<forall>j < k. first_failure w (devices e ! j) = None"
    and "first_failure w (devices e ! k) = Some c"
    and "name \<in> set (map fst gaugeMetrics)"
  shows "covered w name (devices e) =
           take k (devices e) @ (if name \<in> set (written (Some c)) then [devices e ! k] else [])"
  using assms(1-3) by (rule covered_prefix) (simp only: written_catalog assms(4))

lemma not_in_prefix:
  assumes "distinct ds" and "k \<le> m" and "m < length ds"
  shows "ds ! m \<notin> set (take k ds)"
proof
  assume "ds ! m \<in> set (take k ds)"
  then obtain j where j: "j < length (take k ds)" "take k ds ! j = ds ! m"
    by (auto simp: in_set_conv_nth)
  then have "j < k" "j < length ds" "ds ! j = ds ! m" using assms(3) by simp_all
  with assms have "j = m" by (simp add: nth_eq_iff_index_eq)
  with \<open>j < k\<close> assms(2) show False by simp
qed

text \<open>
  Claim C1. When the utilization query of device \<open>k\<close> fails and all queries of the devices
  before it succeeded, the cycle ends with \<open>up\<close> equal to 0; every catalog metric holds
  exactly the entries of the devices \<open>0..k-1\<close>, one per label triple, with the values they
  answered in this cycle; and, the enumerated devices being pairwise different, no series
  has an entry for a device at position \<open>k\<close> or later.
\<close>

theorem C1_utilization_failure:
  assumes "wf_exporter e" and "k < length (devices e)"
    and "\<forall>j < k. first_failure w (devices e ! j) = None"
    and "isl (GetUtilization w (devices e ! k))"
  shows "is_Next (Collect w \<lparr>exporter = e, events = []\<rparr>) \<and> up (cycle w e) = 0 \<and>
    (\<forall>name \<in> set (map fst gaugeMetrics).
       distinct (map fst (series name (cycle w e))) \<and>
       fst ` set (series name (cycle w e)) = label_values ` set (take k (devices e)) \<and>
       (\<forall>d \<in> set (take k (devices e)).
          map_of (series name (cycle w e)) (label_values d) = reading w name d \<and>
          reading w name d \<noteq> None)) \<and>
    (distinct (devices e) \<longrightarrow>
       (\<forall>m name. k \<le> m \<and> m < length (devices e) \<longrightarrow>
          label_values (devices e ! m) \<notin> fst ` set (series name (cycle w e))))"
proof -
  from assms(4) have ff: "first_failure w (devices e ! k) = Some Utilization"
    by (simp only: first_failure_Utilization)
  have cov: "covered w name (devices e) = take k (devices e)"
    if "name \<in> set (map fst gaugeMetrics)" for name
    using cycle_covered_prefix [OF assms(2,3) ff that] by simp
  have keys: "fst ` set (series name (cycle w e)) = label_values ` set (take k (devices e))"
    if "name \<in> set (map fst gaugeMetrics)" for name
    using cycle_series_keys [OF assms(1) that, of w] by (simp only: cov [OF that])
  have absent: "label_values (devices e ! m) \<notin> fst ` set (series name (cycle w e))"
    if "distinct (devices e)" "k \<le> m" "m < length (devices e)" for m name
  proof (cases "name \<in> set (map fst gaugeMetrics)")
    case True
    from not_in_prefix [OF that] have "devices e ! m \<notin> set (take k (devices e))" .
    then have "label_values (devices e ! m) \<notin> label_values ` set (take k (devices e))"
      by (auto dest: label_values_inj)
    with keys [OF True] show ?thesis by simp
  next
    case False
    then show ?thesis by (simp add: series_unknown [OF assms(1)])
  qed
  show ?thesis
  proof (intro conjI ballI impI allI)
    show "is_Next (Collect w \<lparr>exporter = e, events = []\<rparr>)"
      using assms(1) by (simp add: is_Next_Collect)
    show "up (cycle w e) = 0"
      using assms(1,2) ff by (rule cycle_up_failed)
  next
    fix name assume name: "name \<in> set (map fst gaugeMetrics)"
    show "distinct (map fst (series name (cycle w e)))"
      using assms(1) by (rule cycle_series_distinct)
    show "fst ` set (series name (cycle w e)) = label_values ` set (take k (devices e))"
      using name by (rule keys)
    fix d assume "d \<in> set (take k (devices e))"
    then have d: "d \<in> set (covered w name (devices e))" by (simp only: cov [OF name])
    show "map_of (series name (cycle w e)) (label_values d) = reading w name d"
      using assms(1) name d by (rule cycle_series_value)
    show "reading w name d \<noteq> None"
      using assms(1) name d by (rule cycle_series_value)
  next
    fix m name
    assume "distinct (devices e)" and "k \<le> m \<and> m < length (devices e)"
    then show "label_values (devices e ! m) \<notin> fst ` set (series name (cycle w e))"
      by (intro absent) simp_all
  qed
qed

lemma devices_exporter2: "devices exporter2 = [gpu0, gpu1]"
  by (simp add: exporter2_def)

lemma nvml_util1_gpu0: "first_failure nvml_util1 gpu0 = None"
  using gpu0_neq_gpu1 by (simp add: first_failure_def nvml_util1_def nvml_ok_def)

lemma nvml_util1_gpu1: "isl (GetUtilization nvml_util1 gpu1)"
  by (simp add: nvml_util1_def)

lemma catalog_member:
  "''gpu_percent'' \<in> set (map fst gaugeMetrics)"
  "''memory_percent'' \<in> set (map fst gaugeMetrics)"
  "''temperature_celsius'' \<in> set (map fst gaugeMetrics)"
  "''temperature_fahrenheit'' \<in> set (map fst gaugeMetrics)"
  "''power_watts'' \<in> set (map fst gaugeMetrics)"
  "''memory_free'' \<in> set (map fst gaugeMetrics)"
  "''memory_total'' \<in> set (map fst gaugeMetrics)"
  "''memory_used'' \<in> set (map fst gaugeMetrics)"
  by (simp_all only: catalog_names) simp_all

theorem C1_utilization_failure_witness:
  "wf_exporter exporter2 \<and> devices exporter2 = [gpu0, gpu1] \<and> distinct (devices exporter2) \<and>
   first_failure nvml_util1 gpu0 = None \<and> isl (GetUtilization nvml_util1 gpu1) \<and>
   up (cycle nvml_util1 exporter2) = 0 \<and>
   fst ` set (series ''gpu_percent'' (cycle nvml_util1 exporter2)) = {[''0'', ''GPU-0'', ''Tesla K80'']} \<and>
   [''1'', ''GPU-1'', ''Tesla K80''] \<notin> fst ` set (series ''gpu_percent'' (cycle nvml_util1 exporter2))"
proof -
  have k: "(1::nat) < length (devices exporter2)"
    by (simp add: devices_exporter2)
  have before: "\<forall>j < (1::nat). first_failure nvml_util1 (devices exporter2 ! j) = None"
    by (simp add: devices_exporter2 nvml_util1_gpu0)
  have at: "isl (GetUtilization nvml_util1 (devices exporter2 ! 1))"
    by (simp add: devices_exporter2 nvml_util1_gpu1)
  have dist: "distinct (devices exporter2)"
    using gpu0_neq_gpu1 by (simp add: devices_exporter2)
  note main = C1_utilization_failure [OF wf_exporter2 k before at]
  from main have up0: "up (cycle nvml_util1 exporter2) = 0"
    by blast
  from main have per: "\<forall>name \<in> set (map fst gaugeMetrics).
      fst ` set (series name (cycle nvml_util1 exporter2)) =
        label_values ` set (take 1 (devices exporter2))"
    by blast
  from bspec [OF per catalog_member(1)]
  have keys: "fst ` set (series ''gpu_percent'' (cycle nvml_util1 exporter2)) =
      {[''0'', ''GPU-0'', ''Tesla K80'']}"
    by (simp add: devices_exporter2 labels_gpu0)
  from main dist have "\<forall>m name. 1 \<le> m \<and> m < length (devices exporter2) \<longrightarrow>
      label_values (devices exporter2 ! m) \<notin> fst ` set (series name (cycle nvml_util1 exporter2))"
    by blast
  from this [rule_format, of 1 "''gpu_percent''"]
  have absent: "[''1'', ''GPU-1'', ''Tesla K80''] \<notin>
      fst ` set (series ''gpu_percent'' (cycle nvml_util1 exporter2))"
    by (simp add: devices_exporter2 labels_gpu1)
  from wf_exporter2 devices_exporter2 dist nvml_util1_gpu0 nvml_util1_gpu1 up0 keys absent
  show ?thesis by blast
qed

lemma first_failure_entries:
  assumes "wf_exporter e" and "k < length (devices e)"
    and "\<forall>j < k. first_failure w (devices e ! j) = None"
    and "first_failure w (devices e ! k) = Some c"
  shows "is_Next (Collect w \<lparr>exporter = e, events = []\<rparr>) \<and> up (cycle w e) = 0 \<and>
    (\<forall>name \<in> set (written (Some c)).
       map_of (series name (cycle w e)) (label_values (devices e ! k)) =
         reading w name (devices e ! k) \<and>
       reading w name (devices e ! k) \<noteq> None) \<and>
    (distinct (devices e) \<longrightarrow>
       (\<forall>name. name \<notin> set (written (Some c)) \<longrightarrow>
          label_values (devices e ! k) \<notin> fst ` set (series name (cycle w e))))"
proof -
  have sub: "set (written (Some c)) \<subseteq> set (map fst gaugeMetrics)"
    unfolding written_catalog [symmetric] by (cases c) auto
  have cov: "covered w name (devices e) =
      take k (devices e) @ (if name \<in> set (written (Some c)) then [devices e ! k] else [])"
    if "name \<in> set (map fst gaugeMetrics)" for name
    using assms(2-4) that by (rule cycle_covered_prefix)
  have absent: "label_values (devices e ! k) \<notin> fst ` set (series name (cycle w e))"
    if "distinct (devices e)" "name \<notin> set (written (Some c))" for name
  proof (cases "name \<in> set (map fst gaugeMetrics)")
    case True
    from that(2) have "covered w name (devices e) = take k (devices e)"
      using cov [OF True] by simp
    with cycle_series_keys [OF assms(1) True, of w]
    have keys: "fst ` set (series name (cycle w e)) = label_values ` set (take k (devices e))"
      by simp
    from not_in_prefix [OF that(1) le_refl assms(2)]
    have "label_values (devices e ! k) \<notin> label_values ` set (take k (devices e))"
      by (auto dest: label_values_inj)
    with keys show ?thesis by simp
  next
    case False
    then show ?thesis by (simp add: series_unknown [OF assms(1)])
  qed
  show ?thesis
  proof (intro conjI ballI impI allI)
    show "is_Next (Collect w \<lparr>exporter = e, events = []\<rparr>)"
      using assms(1) by (simp add: is_Next_Collect)
    show "up (cycle w e) = 0"
      using assms(1,2,4) by (rule cycle_up_failed)
  next
    fix name assume w: "name \<in> set (written (Some c))"
    with sub have name: "name \<in> set (map fst gaugeMetrics)" by blast
    from w have d: "devices e ! k \<in> set (covered w name (devices e))"
      using cov [OF name] by simp
    show "map_of (series name (cycle w e)) (label_values (devices e ! k)) =
        reading w name (devices e ! k)"
      using assms(1) name d by (rule cycle_series_value)
    show "reading w name (devices e ! k) \<noteq> None"
      using assms(1) name d by (rule cycle_series_value)
  next
    fix name
    assume "distinct (devices e)" and "name \<notin> set (written (Some c))"
    then show "label_values (devices e ! k) \<notin> fst ` set (series name (cycle w e))"
      by (rule absent)
  qed
qed

text \<open>
  Claim C4. When the temperature, power or memory query of device \<open>k\<close> is the first query of
  the cycle to fail, \<open>up\<close> ends at 0 and the series written for device \<open>k\<close> by the classes
  that succeeded before it in the same iteration (\<open>written\<close> lists them per failing class)
  still hold the values of device \<open>k\<close> at the end of the cycle; for pairwise different
  devices, no other series has an entry for device \<open>k\<close>.
\<close>

theorem C4_partial_entries_remain:
  assumes "wf_exporter e" and "k < length (devices e)"
    and "\<forall>j < k. first_failure w (devices e ! j) = None"
    and "first_failure w (devices e ! k) = Some c"
  shows "is_Next (Collect w \<lparr>exporter = e, events = []\<rparr>) \<and> up (cycle w e) = 0 \<and>
    (\<forall>name \<in> set (written (Some c)).
       map_of (series name (cycle w e)) (label_values (devices e ! k)) =
         reading w name (devices e ! k) \<and>
       reading w name (devices e ! k) \<noteq> None) \<and>
    (distinct (devices e) \<longrightarrow>
       (\<forall>name. name \<notin> set (written (Some c)) \<longrightarrow>
          label_values (devices e ! k) \<notin> fst ` set (series name (cycle w e))))"
  using assms by (rule first_failure_entries)

lemma nvml_temp1_gpu0: "first_failure nvml_temp1 gpu0 = None"
  using gpu0_neq_gpu1 by (simp add: first_failure_def nvml_temp1_def nvml_ok_def)

lemma nvml_temp1_gpu1: "first_failure nvml_temp1 gpu1 = Some Temperature"
  by (simp add: first_failure_def nvml_temp1_def nvml_ok_def)

lemma distinct_exporter2: "distinct (devices exporter2)"
  using gpu0_neq_gpu1 by (simp add: devices_exporter2)

theorem C4_partial_entries_remain_witness:
  "wf_exporter exporter2 \<and> devices exporter2 = [gpu0, gpu1] \<and> distinct (devices exporter2) \<and>
   first_failure nvml_temp1 gpu0 = None \<and> first_failure nvml_temp1 gpu1 = Some Temperature \<and>
   up (cycle nvml_temp1 exporter2) = 0 \<and>
   map_of (series ''memory_percent'' (cycle nvml_temp1 exporter2)) [''1'', ''GPU-1'', ''Tesla K80''] = Some 40 \<and>
   [''1'', ''GPU-1'', ''Tesla K80''] \<notin> fst ` set (series ''temperature_celsius'' (cycle nvml_temp1 exporter2))"
proof -
  have k: "(1::nat) < length (devices exporter2)"
    by (simp add: devices_exporter2)
  have before: "\<forall>j < (1::nat). first_failure nvml_temp1 (devices exporter2 ! j) = None"
    by (simp add: devices_exporter2 nvml_temp1_gpu0)
  have at: "first_failure nvml_temp1 (devices exporter2 ! 1) = Some Temperature"
    by (simp add: devices_exporter2 nvml_temp1_gpu1)
  have r: "reading nvml_temp1 ''memory_percent'' gpu1 = Some 40"
    by (simp add: reading_def nvml_temp1_def float64_exact)
  note main = C4_partial_entries_remain [OF wf_exporter2 k before at]
  from main have up0: "up (cycle nvml_temp1 exporter2) = 0"
    by blast
  from main have "\<forall>name \<in> set (written (Some Temperature)).
      map_of (series name (cycle nvml_temp1 exporter2)) (label_values (devices exporter2 ! 1)) =
        reading nvml_temp1 name (devices exporter2 ! 1)"
    by blast
  from bspec [OF this, of "''memory_percent''"]
  have val: "map_of (series ''memory_percent'' (cycle nvml_temp1 exporter2))
      [''1'', ''GPU-1'', ''Tesla K80''] = Some 40"
    by (simp add: devices_exporter2 labels_gpu1 r)
  from main distinct_exporter2 have "\<forall>name. name \<notin> set (written (Some Temperature)) \<longrightarrow>
      label_values (devices exporter2 ! 1) \<notin> fst ` set (series name (cycle nvml_temp1 exporter2))"
    by blast
  from this [rule_format, of "''temperature_celsius''"]
  have absent: "[''1'', ''GPU-1'', ''Tesla K80''] \<notin>
      fst ` set (series ''temperature_celsius'' (cycle nvml_temp1 exporter2))"
    by (simp add: devices_exporter2 labels_gpu1)
  from wf_exporter2 devices_exporter2 distinct_exporter2 nvml_temp1_gpu0 nvml_temp1_gpu1 up0 val absent
  show ?thesis by blast
qed

subsection \<open>The scenario with a failing temperature query\<close>

lemma float64_scenario:
  "float64 45 = 45" "float64 60 = 60" "float64 167 = 167" "float64 75 = 75" "float64 120 = 120"
  "float64 1000000 = 1000000" "float64 4000000 = 4000000" "float64 3000000 = 3000000"
  by (simp_all add: float64_exact)

text \<open>
  Claim C2, as the specification states it, fails: in its scenario the utilization query
  of device 1 has succeeded before the temperature query fails, so the cycle has written
  \<open>gpu_percent\<close> and \<open>memory_percent\<close> for device 1, and they stay.
\<close>

theorem C2_scenario_counterexample:
  "wf_exporter exporter2 \<and> devices exporter2 = [gpu0, gpu1] \<and>
   GetUtilization nvml_temp1 gpu0 = Inr (45, 60) \<and>
   GetTemperature nvml_temp1 gpu0 = Inr (167, 75) \<and>
   GetPowerUsage nvml_temp1 gpu0 = Inr 120 \<and>
   GetMemoryInfo nvml_temp1 gpu0 = Inr \<lparr>Free = 1000000, Total = 4000000, Used = 3000000\<rparr> \<and>
   GetTemperature nvml_temp1 gpu1 = Inl ''Unknown Error'' \<and>
   label_values gpu1 = [''1'', ''GPU-1'', ''Tesla K80''] \<and>
   map_of (series ''gpu_percent'' (cycle nvml_temp1 exporter2)) [''1'', ''GPU-1'', ''Tesla K80''] = Some 30 \<and>
   map_of (series ''memory_percent'' (cycle nvml_temp1 exporter2)) [''1'', ''GPU-1'', ''Tesla K80''] = Some 40"
proof -
  have ans: "GetUtilization nvml_temp1 gpu0 = Inr (45, 60)"
    "GetTemperature nvml_temp1 gpu0 = Inr (167, 75)"
    "GetPowerUsage nvml_temp1 gpu0 = Inr 120"
    "GetMemoryInfo nvml_temp1 gpu0 = Inr \<lparr>Free = 1000000, Total = 4000000, Used = 3000000\<rparr>"
    "GetTemperature nvml_temp1 gpu1 = Inl ''Unknown Error''"
    using gpu0_neq_gpu1 by (simp_all add: nvml_temp1_def nvml_ok_def)
  have cov: "covered nvml_temp1 name (devices exporter2) = [gpu0, gpu1]"
    if "name = ''gpu_percent'' \<or> name = ''memory_percent''" for name
    using that by (auto simp: devices_exporter2 nvml_temp1_gpu0 nvml_temp1_gpu1)
  have r: "reading nvml_temp1 ''gpu_percent'' gpu1 = Some 30"
    "reading nvml_temp1 ''memory_percent'' gpu1 = Some 40"
    by (simp_all add: reading_def nvml_temp1_def float64_exact)
  have "map_of (series ''gpu_percent'' (cycle nvml_temp1 exporter2)) (label_values gpu1) =
      reading nvml_temp1 ''gpu_percent'' gpu1"
    by (rule cycle_series_value [OF wf_exporter2 catalog_member(1)]) (simp add: cov)
  moreover
  have "map_of (series ''memory_percent'' (cycle nvml_temp1 exporter2)) (label_values gpu1) =
      reading nvml_temp1 ''memory_percent'' gpu1"
    by (rule cycle_series_value [OF wf_exporter2 catalog_member(2)]) (simp add: cov)
  ultimately show ?thesis
    using wf_exporter2 devices_exporter2 ans by (simp add: labels_gpu1 r)
qed

text \<open>
  Claim C2, amended. In a cycle with two different devices where device 0 answers the four
  query classes with the values of the scenario and device 1 answers its utilization query
  and fails its temperature query, \<open>up\<close> ends at 0; the eight series hold the values of
  device 0; for device 1 \<open>gpu_percent\<close> and \<open>memory_percent\<close> hold the answered values,
  and no other series has an entry for device 1.
\<close>

theorem C2_scenario_amended:
  assumes "wf_exporter e" and "devices e = [d0, d1]" and "d0 \<noteq> d1"
    and "GetUtilization w d0 = Inr (45, 60)"
    and "GetTemperature w d0 = Inr (167, 75)"
    and "GetPowerUsage w d0 = Inr 120"
    and "GetMemoryInfo w d0 = Inr \<lparr>Free = 1000000, Total = 4000000, Used = 3000000\<rparr>"
    and "GetUtilization w d1 = Inr (g1, m1)"
    and "GetTemperature w d1 = Inl err"
  shows "up (cycle w e) = 0 \<and>
    map_of (series ''gpu_percent'' (cycle w e)) (label_values d0) = Some 45 \<and>
    map_of (series ''memory_percent'' (cycle w e)) (label_values d0) = Some 60 \<and>
    map_of (series ''temperature_fahrenheit'' (cycle w e)) (label_values d0) = Some 167 \<and>
    map_of (series ''temperature_celsius'' (cycle w e)) (label_values d0) = Some 75 \<and>
    map_of (series ''power_watts'' (cycle w e)) (label_values d0) = Some 120 \<and>
    map_of (series ''memory_free'' (cycle w e)) (label_values d0) = Some 1000000 \<and>
    map_of (series ''memory_total'' (cycle w e)) (label_values d0) = Some 4000000 \<and>
    map_of (series ''memory_used'' (cycle w e)) (label_values d0) = Some 3000000 \<and>
    map_of (series ''gpu_percent'' (cycle w e)) (label_values d1) = Some (float64 g1) \<and>
    map_of (series ''memory_percent'' (cycle w e)) (label_values d1) = Some (float64 m1) \<and>
    (\<forall>name. name \<noteq> ''gpu_percent'' \<and> name \<noteq> ''memory_percent'' \<longrightarrow>
       label_values d1 \<notin> fst ` set (series name (cycle w e)))"
proof -
  have ff0: "first_failure w d0 = None"
    using assms(4-7) by (simp add: first_failure_def)
  have ff1: "first_failure w d1 = Some Temperature"
    using assms(8,9) by (simp add: first_failure_def)
  have k: "(1::nat) < length (devices e)"
    by (simp add: assms(2))
  have before: "\<forall>j < (1::nat). first_failure w (devices e ! j) = None"
    by (simp add: assms(2) ff0)
  have at: "first_failure w (devices e ! 1) = Some Temperature"
    by (simp add: assms(2) ff1)
  have dist: "distinct (devices e)"
    using assms(3) by (simp add: assms(2))
  note part = first_failure_entries [OF assms(1) k before at]
  have d0: "map_of (series name (cycle w e)) (label_values d0) = reading w name d0"
    if "name \<in> set (map fst gaugeMetrics)" for name
  proof -
    have "covered w name (devices e) =
        take 1 (devices e) @ (if name \<in> set (written (Some Temperature)) then [devices e ! 1] else [])"
      using k before at that by (rule cycle_covered_prefix)
    then have "d0 \<in> set (covered w name (devices e))"
      by (simp add: assms(2))
    with assms(1) that show ?thesis by (rule cycle_series_value)
  qed
  note r0 = reading_utilization [OF assms(4)] reading_temperature [OF assms(5)]
    reading_power [OF assms(6)] reading_memory [OF assms(7)]
  note r1 = reading_utilization [OF assms(8)]
  from part have up0: "up (cycle w e) = 0"
    by blast
  from part have w1: "\<forall>name \<in> set (written (Some Temperature)).
      map_of (series name (cycle w e)) (label_values (devices e ! 1)) = reading w name (devices e ! 1)"
    by blast
  have g1: "map_of (series ''gpu_percent'' (cycle w e)) (label_values d1) = Some (float64 g1)"
    using bspec [OF w1, of "''gpu_percent''"] by (simp add: assms(2) r1)
  have m1: "map_of (series ''memory_percent'' (cycle w e)) (label_values d1) = Some (float64 m1)"
    using bspec [OF w1, of "''memory_percent''"] by (simp add: assms(2) r1)
  from part dist have "\<forall>name. name \<notin> set (written (Some Temperature)) \<longrightarrow>
      label_values (devices e ! 1) \<notin> fst ` set (series name (cycle w e))"
    by blast
  then have rest: "\<forall>name. name \<noteq> ''gpu_percent'' \<and> name \<noteq> ''memory_percent'' \<longrightarrow>
      label_values d1 \<notin> fst ` set (series name (cycle w e))"
    by (simp add: assms(2))
  have v0:
    "map_of (series ''gpu_percent'' (cycle w e)) (label_values d0) = Some 45"
    "map_of (series ''memory_percent'' (cycle w e)) (label_values d0) = Some 60"
    "map_of (series ''temperature_fahrenheit'' (cycle w e)) (label_values d0) = Some 167"
    "map_of (series ''temperature_celsius'' (cycle w e)) (label_values d0) = Some 75"
    "map_of (series ''power_watts'' (cycle w e)) (label_values d0) = Some 120"
    "map_of (series ''memory_free'' (cycle w e)) (label_values d0) = Some 1000000"
    "map_of (series ''memory_total'' (cycle w e)) (label_values d0) = Some 4000000"
    "map_of (series ''memory_used'' (cycle w e)) (label_values d0) = Some 3000000"
    using catalog_member [THEN d0] by (simp_all add: r0 float64_scenario)
  from up0 v0 g1 m1 rest show ?thesis
    by blast
qed

theorem C2_scenario_amended_witness:
  "wf_exporter exporter2 \<and> devices exporter2 = [gpu0, gpu1] \<and> gpu0 \<noteq> gpu1 \<and>
   GetUtilization nvml_temp1 gpu0 = Inr (45, 60) \<and>
   GetTemperature nvml_temp1 gpu0 = Inr (167, 75) \<and>
   GetPowerUsage nvml_temp1 gpu0 = Inr 120 \<and>
   GetMemoryInfo nvml_temp1 gpu0 = Inr \<lparr>Free = 1000000, Total = 4000000, Used = 3000000\<rparr> \<and>
   GetUtilization nvml_temp1 gpu1 = Inr (30, 40) \<and>
   GetTemperature nvml_temp1 gpu1 = Inl ''Unknown Error'' \<and>
   up (cycle nvml_temp1 exporter2) = 0 \<and>
   map_of (series ''gpu_percent'' (cycle nvml_temp1 exporter2)) [''0'', ''GPU-0'', ''Tesla K80''] = Some 45 \<and>
   map_of (series ''memory_percent'' (cycle nvml_temp1 exporter2)) [''0'', ''GPU-0'', ''Tesla K80''] = Some 60 \<and>
   map_of (series ''power_watts'' (cycle nvml_temp1 exporter2)) [''0'', ''GPU-0'', ''Tesla K80''] = Some 120 \<and>
   [''1'', ''GPU-1'', ''Tesla K80''] \<notin> fst ` set (series ''power_watts'' (cycle nvml_temp1 exporter2))"
proof -
  have ans: "GetUtilization nvml_temp1 gpu0 = Inr (45, 60)"
    "GetTemperature nvml_temp1 gpu0 = Inr (167, 75)"
    "GetPowerUsage nvml_temp1 gpu0 = Inr 120"
    "GetMemoryInfo nvml_temp1 gpu0 = Inr \<lparr>Free = 1000000, Total = 4000000, Used = 3000000\<rparr>"
    "GetUtilization nvml_temp1 gpu1 = Inr (30, 40)"
    "GetTemperature nvml_temp1 gpu1 = Inl ''Unknown Error''"
    using gpu0_neq_gpu1 by (simp_all add: nvml_temp1_def nvml_ok_def)
  note main = C2_scenario_amended [OF wf_exporter2 devices_exporter2 gpu0_neq_gpu1 ans]
  from main have up0: "up (cycle nvml_temp1 exporter2) = 0"
    by blast
  from main have vals:
    "map_of (series ''gpu_percent'' (cycle nvml_temp1 exporter2)) (label_values gpu0) = Some 45"
    "map_of (series ''memory_percent'' (cycle nvml_temp1 exporter2)) (label_values gpu0) = Some 60"
    "map_of (series ''power_watts'' (cycle nvml_temp1 exporter2)) (label_values gpu0) = Some 120"
    by blast+
  from main have "\<forall>name. name \<noteq> ''gpu_percent'' \<and> name \<noteq> ''memory_percent'' \<longrightarrow>
      label_values gpu1 \<notin> fst ` set (series name (cycle nvml_temp1 exporter2))"
    by blast
  from this [rule_format, of "''power_watts''"]
  have absent: "[''1'', ''GPU-1'', ''Tesla K80''] \<notin>
      fst ` set (series ''power_watts'' (cycle nvml_temp1 exporter2))"
    by (simp add: labels_gpu1)
  from wf_exporter2 devices_exporter2 gpu0_neq_gpu1 ans up0 vals [unfolded labels_gpu0] absent
  show ?thesis by blast
qed

lemma success_progress: "\<forall>ev \<in> set (success_events c d ws). is_progress ev"
  by (auto simp: success_events_def)

subsection \<open>The shape of the trace\<close>

lemma dev_shapeI:
  assumes "dev_events w d = A @ F" and "\<forall>ev \<in> set A. is_progress ev"
    and "case first_failure w d of None \<Rightarrow> F = [] | Some c \<Rightarrow> \<exists>err. F = failure_events c d err"
  shows "\<exists>A F. dev_events w d = A @ F \<and> (\<forall>ev \<in> set A. is_progress ev) \<and>
     (case first_failure w d of None \<Rightarrow> F = []
      | Some c \<Rightarrow> \<exists>err. F = failure_events c d err)"
  using assms by blast

lemma dev_events_shape:
  "\<exists>A F. dev_events w d = A @ F \<and> (\<forall>ev \<in> set A. is_progress ev) \<and>
     (case first_failure w d of None \<Rightarrow> F = []
      | Some c \<Rightarrow> \<exists>err. F = failure_events c d err)"
proof (cases "GetUtilization w d")
  case (Inl err)
  then have "dev_events w d = [] @ failure_events Utilization d err"
    by (simp add: dev_events_def)
  then show ?thesis
    by (rule dev_shapeI) (auto simp: first_failure_def Inl)
next
  case u: (Inr gm)
  obtain g m where gm: "gm = (g, m)" by (cases gm)
  let ?U = "success_events Utilization d [(''gpu_percent'', g), (''memory_percent'', m)]"
  show ?thesis
  proof (cases "GetTemperature w d")
    case (Inl err)
    with u gm have "dev_events w d = ?U @ failure_events Temperature d err"
      by (simp add: dev_events_def)
    moreover have "\<forall>ev \<in> set ?U. is_progress ev"
      by (rule success_progress)
    ultimately show ?thesis
      by (rule dev_shapeI) (auto simp: first_failure_def u Inl)
  next
    case t: (Inr fc)
    obtain f c where fc: "fc = (f, c)" by (cases fc)
    let ?T = "success_events Temperature d
      [(''temperature_celsius'', c), (''temperature_fahrenheit'', f)]"
    show ?thesis
    proof (cases "GetPowerUsage w d")
      case (Inl err)
      with u gm t fc have "dev_events w d = (?U @ ?T) @ failure_events PowerUsage d err"
        by (simp add: dev_events_def)
      moreover have "\<forall>ev \<in> set (?U @ ?T). is_progress ev"
        using success_progress by (simp add: ball_Un)
      ultimately show ?thesis
        by (rule dev_shapeI) (auto simp: first_failure_def u t Inl)
    next
      case p: (Inr pw)
      let ?P = "success_events PowerUsage d [(''power_watts'', pw)]"
      show ?thesis
      proof (cases "GetMemoryInfo w d")
        case (Inl err)
        with u gm t fc p have "dev_events w d = (?U @ ?T @ ?P) @ failure_events MemoryInfo d err"
          by (simp add: dev_events_def)
        moreover have "\<forall>ev \<in> set (?U @ ?T @ ?P). is_progress ev"
          using success_progress by (simp add: ball_Un)
        ultimately show ?thesis
          by (rule dev_shapeI) (auto simp: first_failure_def u t p Inl)
      next
        case (Inr mem)
        let ?M = "success_events MemoryInfo d
          [(''memory_free'', Free mem), (''memory_total'', Total mem), (''memory_used'', Used mem)]"
        from u gm t fc p Inr have "dev_events w d = (?U @ ?T @ ?P @ ?M) @ []"
          by (simp add: dev_events_def)
        moreover have "\<forall>ev \<in> set (?U @ ?T @ ?P @ ?M). is_progress ev"
          using success_progress by (simp add: ball_Un)
        ultimately show ?thesis
          by (rule dev_shapeI) (auto simp: first_failure_def u t p Inr)
      qed
    qed
  qed
qed

lemma loop_events_shape:
  "\<exists>A F. loop_events w ds = A @ F \<and> (\<forall>ev \<in> set A. is_progress ev) \<and>
     (if \<forall>d \<in> set ds. first_failure w d = None then F = []
      else \<exists>c d err. d \<in> set ds \<and> F = failure_events c d err)"
proof (induction ds)
  case Nil
  then show ?case by simp
next
  case (Cons d ds)
  from dev_events_shape [of w d] obtain A F where d: "dev_events w d = A @ F"
    "\<forall>ev \<in> set A. is_progress ev"
    "case first_failure w d of None \<Rightarrow> F = [] | Some c \<Rightarrow> \<exists>err. F = failure_events c d err"
    by blast
  show ?case
  proof (cases "first_failure w d")
    case None
    from Cons.IH obtain A' F' where r: "loop_events w ds = A' @ F'"
      "\<forall>ev \<in> set A'. is_progress ev"
      "if \<forall>d \<in> set ds. first_failure w d = None then F' = []
       else \<exists>c d err. d \<in> set ds \<and> F' = failure_events c d err"
      by blast
    from None d(3) have "F = []" by simp
    with None d(1) r(1) have "loop_events w (d # ds) = (A @ A') @ F'" by simp
    moreover from d(2) r(2) have "\<forall>ev \<in> set (A @ A'). is_progress ev" by auto
    moreover from r(3) None
    have "if \<forall>d' \<in> set (d # ds). first_failure w d' = None then F' = []
       else \<exists>c d' err. d' \<in> set (d # ds) \<and> F' = failure_events c d' err"
      by (auto split: if_splits)
    ultimately show ?thesis by blast
  next
    case (Some c)
    with d(3) obtain err where "F = failure_events c d err" by auto
    with Some d(1) have "loop_events w (d # ds) = A @ F" "F = failure_events c d err" by simp_all
    with d(2) Some show ?thesis by (intro exI [of _ A] exI [of _ F]) auto
  qed
qed

lemma progress_not_send: "\<forall>ev \<in> set A. is_progress ev \<Longrightarrow> sent A = []"
  by (induction A rule: sent.induct) simp_all

lemma sent_failure [simp]: "sent (failure_events c d err) = []"
  by (simp add: failure_events_def)

lemma sent_loop_events [simp]: "sent (loop_events w ds) = []"
proof -
  from loop_events_shape [of w ds] obtain A F where eq: "loop_events w ds = A @ F"
    and prog: "\<forall>ev \<in> set A. is_progress ev"
    and fail: "if \<forall>d \<in> set ds. first_failure w d = None then F = []
      else \<exists>c d err. d \<in> set ds \<and> F = failure_events c d err"
    by blast
  from fail have "sent F = []"
    by (auto split: if_splits)
  with progress_not_send [OF prog] show ?thesis
    by (simp add: eq)
qed

lemma sent_cycle_events:
  "sent (cycle_events w e) =
     concat (map (\<lambda>(name, vec). vec_Collect vec) (gauges (fold replay (body_events w e) e))) @
     [Metric (DefaultNamespace @ ''_up'') [] (up (fold replay (body_events w e) e))]"
  by (simp add: cycle_events_def body_events_def export_events_def del: replay.simps)

lemma sent_cycle:
  assumes "wf_exporter e"
  shows "sent (cycle_trace w e) =
     concat (map (\<lambda>(name, vec). vec_Collect vec) (gauges (cycle w e))) @
     [Metric (DefaultNamespace @ ''_up'') [] (up (cycle w e))]"
  by (simp only: cycle_trace_events [OF assms] cycle_body [OF assms] sent_cycle_events)

lemma gauges_series:
  assumes "distinct (map fst (gauges e))" and "(name, vec) \<in> set (gauges e)"
  shows "series name e = metrics vec"
  using assms by (simp add: series_def)

lemma cycle_keys_devices:
  assumes "wf_exporter e" and "lvs \<in> fst ` set (series name (cycle w e))"
  shows "\<exists>d \<in> set (devices e). lvs = label_values d"
proof (cases "name \<in> set (map fst gaugeMetrics)")
  case True
  from assms(2) cycle_series_keys [OF assms(1) True, of w] covered_subset [of w name "devices e"]
  show ?thesis by auto
next
  case False
  with assms show ?thesis by (simp add: series_unknown)
qed

lemma sent_cycle_labels:
  assumes "wf_exporter e" and "m \<in> set (sent (cycle_trace w e))"
  shows "m = Metric (DefaultNamespace @ ''_up'') [] (up (cycle w e)) \<or>
    (\<exists>d \<in> set (devices e). \<exists>name x.
       m = Metric name (zip [''device_id'', ''device_uuid'', ''device_name'']
                            [Itoa (i d), DeviceUUID d, DeviceName d]) x)"
proof -
  from assms(1) have wf: "wf_exporter (cycle w e)" by (rule wf_cycle)
  from assms(2) consider "m = Metric (DefaultNamespace @ ''_up'') [] (up (cycle w e))"
    | name vec where "(name, vec) \<in> set (gauges (cycle w e))" "m \<in> set (vec_Collect vec)"
    unfolding sent_cycle [OF assms(1)] by auto
  then show ?thesis
  proof cases
    case 1
    then show ?thesis by simp
  next
    case 2
    from wf 2(1) obtain info where "map_of gaugeMetrics name = Some info"
      "labels info = variableLabels vec"
      by (auto simp: wf_exporter_def)
    with catalog_labels [of name info]
    have lbl: "variableLabels vec = [''device_id'', ''device_uuid'', ''device_name'']"
      by simp
    from wf 2(1) have ser: "series name (cycle w e) = metrics vec"
      by (intro gauges_series) (simp_all add: wf_exporter_def)
    from 2(2) obtain lvs x where lx: "(lvs, x) \<in> set (metrics vec)"
      "m = Metric (Name vec) (zip (variableLabels vec) lvs) x"
      by (auto simp: vec_Collect_def)
    from lx(1) ser have "lvs \<in> fst ` set (series name (cycle w e))"
      by (simp add: rev_image_eqI)
    from cycle_keys_devices [OF assms(1) this] obtain d where
      "d \<in> set (devices e)" "lvs = label_values d" by blast
    with lx(2) lbl show ?thesis
      by (auto simp: label_values_def)
  qed
qed

subsection \<open>Labels\<close>

lemma unique_split:
  assumes "pre @ x # post = A @ x # B" and "x \<notin> set A" and "x \<notin> set B"
  shows "pre = A \<and> post = B"
  using assms
proof (induction pre arbitrary: A)
  case Nil
  then show ?case by (cases A) auto
next
  case (Cons p pre)
  show ?case
  proof (cases A)
    case Nil
    with Cons.prems have "x \<in> set B \<or> x = p" "p = x" by auto
    with Cons.prems Nil have "pre @ x # post = B" by simp
    then have "x \<in> set B" by (metis in_set_conv_decomp)
    with Cons.prems show ?thesis by simp
  next
    case (Cons a A')
    with Cons.prems Cons.IH [of A'] show ?thesis by auto
  qed
qed

lemma progress_events:
  assumes "\<forall>ev \<in> set A. is_progress ev"
  shows "EvReset name \<notin> set A" and "EvUpSet x \<notin> set A" and "EvQuery c d False \<notin> set A"
    and "EvSend m \<notin> set A"
  using assms by auto

lemma catalog_schema:
  assumes "name \<in> set (map fst gaugeMetrics)"
  shows "map_option labels (map_of gaugeMetrics name) = Some [''device_id'', ''device_uuid'', ''device_name'']"
proof -
  from assms obtain info where "map_of gaugeMetrics name = Some info"
    by (metis map_of_eq_None_iff not_None_eq set_map)
  with catalog_labels [OF this] show ?thesis by simp
qed

lemma gauge_set_success:
  "EvGaugeSet name lvs x \<in> set (success_events c d ws) \<Longrightarrow>
     lvs = label_values d \<and> name \<in> fst ` set ws"
  by (force simp: success_events_def)

lemma gauge_set_failure: "EvGaugeSet name lvs x \<notin> set (failure_events c d err)"
  by (simp add: failure_events_def)

lemma gauge_set_dev:
  assumes "EvGaugeSet name lvs x \<in> set (dev_events w d)"
  shows "lvs = label_values d \<and> name \<in> set (map fst gaugeMetrics)"
proof -
  have "lvs = label_values d \<and> name \<in> set (written None)"
    using assms
    by (auto simp: dev_events_def gauge_set_failure dest!: gauge_set_success
        split: sum.splits prod.splits)
  then show ?thesis by (simp only: written_catalog)
qed

lemma gauge_set_loop:
  "EvGaugeSet name lvs x \<in> set (loop_events w ds) \<Longrightarrow>
     (\<exists>d \<in> set ds. lvs = label_values d) \<and> name \<in> set (map fst gaugeMetrics)"
  by (induction ds) (auto dest: gauge_set_dev split: if_splits)

lemma gauge_set_cycle:
  assumes "EvGaugeSet name lvs x \<in> set (cycle_events w e)"
  shows "(\<exists>d \<in> set (devices e). lvs = label_values d) \<and> name \<in> set (map fst gaugeMetrics)"
proof -
  from assms have "EvGaugeSet name lvs x \<in> set (loop_events w (devices e))"
    by (auto simp: cycle_events_def body_events_def export_events_def)
  then show ?thesis by (rule gauge_set_loop)
qed

subsection \<open>The health gauge\<close>

lemma Collect_sends_up:
  "last (events (state_of (Collect w s))) =
     EvSend (Metric (DefaultNamespace @ ''_up'') [] (up (exporter (state_of (Collect w s)))))"
  by (simp add: Collect_def send_up_def emit_def collect_gauges_def split: flow.splits)

lemma failed_query_in_failure:
  "EvQuery c d False \<in> set (failure_events c' d' err) \<longleftrightarrow> c = c' \<and> d = d'"
  by (auto simp: failure_events_def)

text \<open>
  Claim C5. The effects of a cycle are: the resets of all vectors, then \<open>up.Set(1)\<close>, then
  the rest. In the rest no vector is reset, every write of \<open>up\<close> writes 0 (so \<open>up\<close> never
  goes back to 1), and every failed device query, of whatever class, is followed at once by
  the printed line and \<open>up.Set(0)\<close>; \<open>up\<close> ends at 0 exactly when a query failed. The last
  effect of \<^verbatim>\<open>Collect\<close> is the send of \<open>up\<close> with its final value, and this also holds from
  an arbitrary state, a panicking cycle included.
\<close>

theorem C5_health_gauge:
  assumes "wf_exporter e"
  shows "(\<exists>rest.
      cycle_trace w e = map (\<lambda>(name, vec). EvReset name) (gauges e) @ EvUpSet 1 # rest \<and>
      (\<forall>name. EvReset name \<notin> set rest) \<and>
      (\<forall>x. EvUpSet x \<in> set rest \<longrightarrow> x = 0) \<and>
      (\<forall>pre c d post. rest = pre @ EvQuery c d False # post \<longrightarrow>
         (\<exists>line post'. post = EvPrintf line # EvUpSet 0 # post')) \<and>
      up (cycle w e) = (if \<exists>c d. EvQuery c d False \<in> set rest then 0 else 1)) \<and>
    last (events (state_of (Collect w s))) =
      EvSend (Metric (DefaultNamespace @ ''_up'') [] (up (exporter (state_of (Collect w s)))))"
proof (rule conjI)
  let ?ds = "devices e"
  let ?E = "export_events (fold replay (body_events w e) e)"
  let ?rest = "loop_events w ?ds @ ?E"
  from loop_events_shape [of w ?ds] obtain A F where eq: "loop_events w ?ds = A @ F"
    and prog: "\<forall>ev \<in> set A. is_progress ev"
    and fail: "if \<forall>d \<in> set ?ds. first_failure w d = None then F = []
      else \<exists>c d err. d \<in> set ?ds \<and> F = failure_events c d err"
    by blast
  note A = progress_events [OF prog]
  have E: "EvReset name \<notin> set ?E" "EvUpSet x \<notin> set ?E" "EvQuery c d ok \<notin> set ?E" for name x c d ok
    by (auto simp: export_events_def)
  have trace: "cycle_trace w e = map (\<lambda>(name, vec). EvReset name) (gauges e) @ EvUpSet 1 # ?rest"
    by (simp add: cycle_trace_events [OF assms] cycle_events_def body_events_def)
  have F_cases: "F = [] \<or> (\<exists>c d err. F = failure_events c d err)"
    using fail by (auto split: if_splits)
  have no_reset: "EvReset name \<notin> set ?rest" for name
    using F_cases A(1) [of name] E(1) [of name] by (auto simp: eq failure_events_def)
  have only_zero: "x = 0" if "EvUpSet x \<in> set ?rest" for x
    using that F_cases A(2) [of x] E(2) [of x] by (auto simp: eq failure_events_def)
  have adjacent: "\<exists>line post'. post = EvPrintf line # EvUpSet 0 # post'"
    if split: "?rest = pre @ EvQuery c d False # post" for pre c d post
  proof -
    let ?q = "EvQuery c d False"
    have "?q \<in> set ?rest" by (simp only: split) simp
    with A(3) [of c d] E(3) [of c d False] have inF: "?q \<in> set F"
      by (auto simp: eq)
    with F_cases obtain c' d' err where F: "F = failure_events c' d' err" by auto
    with inF have "c = c'" "d = d'" by (simp_all add: failed_query_in_failure)
    with F have F': "F = ?q # EvPrintf (''Failed to get '' @ what c @ '' for '' @ DeviceUUID d @
        '': '' @ err @ [CHR 0x0A]) # [EvUpSet 0]"
      by (simp add: failure_events_def)
    let ?line = "''Failed to get '' @ what c @ '' for '' @ DeviceUUID d @ '': '' @ err @ [CHR 0x0A]"
    have "pre @ ?q # post = A @ ?q # (EvPrintf ?line # EvUpSet 0 # ?E)"
      using split by (simp add: eq F')
    moreover have "?q \<notin> set (EvPrintf ?line # EvUpSet 0 # ?E)"
      using E(3) [of c d False] by simp
    ultimately have "post = EvPrintf ?line # EvUpSet 0 # ?E"
      using A(3) [of c d] by (blast dest: unique_split)
    then show ?thesis by blast
  qed
  have failed_iff: "(\<exists>c d. EvQuery c d False \<in> set ?rest) \<longleftrightarrow>
      \<not> (\<forall>d \<in> set ?ds. first_failure w d = None)"
  proof (cases "\<forall>d \<in> set ?ds. first_failure w d = None")
    case True
    with fail have "F = []" by simp
    with True A(3) E(3) show ?thesis by (auto simp: eq)
  next
    case False
    with fail obtain c d err where "F = failure_events c d err" by auto
    then have "EvQuery c d False \<in> set ?rest"
      by (simp add: eq failure_events_def)
    with False show ?thesis by blast
  qed
  have up_end: "up (cycle w e) = (if \<exists>c d. EvQuery c d False \<in> set ?rest then 0 else 1)"
    unfolding failed_iff by (simp add: cycle_up [OF assms])
  from trace no_reset only_zero adjacent up_end
  show "\<exists>rest.
      cycle_trace w e = map (\<lambda>(name, vec). EvReset name) (gauges e) @ EvUpSet 1 # rest \<and>
      (\<forall>name. EvReset name \<notin> set rest) \<and>
      (\<forall>x. EvUpSet x \<in> set rest \<longrightarrow> x = 0) \<and>
      (\<forall>pre c d post. rest = pre @ EvQuery c d False # post \<longrightarrow>
         (\<exists>line post'. post = EvPrintf line # EvUpSet 0 # post')) \<and>
      up (cycle w e) = (if \<exists>c d. EvQuery c d False \<in> set rest then 0 else 1)"
    by (intro exI [of _ ?rest]) blast
next
  show "last (events (state_of (Collect w s))) =
      EvSend (Metric (DefaultNamespace @ ''_up'') [] (up (exporter (state_of (Collect w s)))))"
    by (rule Collect_sends_up)
qed

lemma trace_gpu1_failure:
  "EvQuery Temperature gpu1 False \<in> set (cycle_trace nvml_temp1 exporter2)"
proof -
  have "EvQuery Temperature gpu1 False \<in> set (dev_events nvml_temp1 gpu1)"
    by (simp add: dev_events_def nvml_temp1_def nvml_ok_def failure_events_def)
  then have "EvQuery Temperature gpu1 False \<in> set (loop_events nvml_temp1 (devices exporter2))"
    by (simp add: nvml_temp1_gpu0 devices_exporter2)
  then show ?thesis
    unfolding cycle_trace_events [OF wf_exporter2] cycle_events_def body_events_def
    by simp
qed

theorem C5_health_gauge_witness:
  "wf_exporter exporter2 \<and>
   EvQuery Temperature gpu1 False \<in> set (cycle_trace nvml_temp1 exporter2) \<and>
   up (cycle nvml_temp1 exporter2) = 0 \<and>
   last (cycle_trace nvml_temp1 exporter2) = EvSend (Metric ''nvml_up'' [] 0)"
proof -
  note main = C5_health_gauge [OF wf_exporter2,
      where w = nvml_temp1 and s = "\<lparr>exporter = exporter2, events = []\<rparr>"]
  from main obtain rest where
    tr: "cycle_trace nvml_temp1 exporter2 =
      map (\<lambda>(name, vec). EvReset name) (gauges exporter2) @ EvUpSet 1 # rest"
    and up: "up (cycle nvml_temp1 exporter2) =
      (if \<exists>c d. EvQuery c d False \<in> set rest then 0 else 1)"
    by blast
  from trace_gpu1_failure have "EvQuery Temperature gpu1 False \<in> set rest"
    unfolding tr by auto
  with up have up0: "up (cycle nvml_temp1 exporter2) = 0"
    by auto
  from main have "last (cycle_trace nvml_temp1 exporter2) =
      EvSend (Metric (DefaultNamespace @ ''_up'') [] (up (cycle nvml_temp1 exporter2)))"
    by (simp add: cycle_def cycle_trace_def)
  then have "last (cycle_trace nvml_temp1 exporter2) = EvSend (Metric ''nvml_up'' [] 0)"
    by (simp add: up0 DefaultNamespace_def)
  with wf_exporter2 trace_gpu1_failure up0 show ?thesis
    by blast
qed

subsection \<open>Uniqueness of entries and stale entries\<close>

lemma registry_ok_map_entry:
  assumes "registry_ok e"
    and "\<And>vec. distinct (map fst (metrics vec)) \<Longrightarrow> distinct (map fst (metrics (f vec)))"
  shows "registry_ok (e\<lparr>gauges := AList.map_entry k f (gauges e)\<rparr>)"
  using assms
  by (auto simp: registry_ok_def map_fst_map_entry dest!: set_map_entry)

lemma registry_ok_replay: "registry_ok e \<Longrightarrow> registry_ok (replay ev e)"
proof (cases ev)
  case (EvReset name)
  assume "registry_ok e"
  then show ?thesis
    unfolding EvReset replay.simps by (rule registry_ok_map_entry) (simp add: Reset_def)
next
  case (EvGaugeSet name lvs x)
  assume "registry_ok e"
  then show ?thesis
    unfolding EvGaugeSet replay.simps
    by (rule registry_ok_map_entry) (simp add: WithLabelValues_Set_def AList.distinct_update)
qed (simp_all add: registry_ok_def)

lemma registry_ok_fold: "registry_ok e \<Longrightarrow> registry_ok (fold replay evs e)"
  by (induction evs arbitrary: e) (simp_all add: registry_ok_replay del: replay.simps)

lemma NewExporter_registry_ok:
  assumes "NewExporter (Inr ds) = Inr e"
  shows "registry_ok e"
proof -
  from assms have wf: "wf_exporter e" by (rule NewExporter_wf)
  from assms have "gauges e = map (\<lambda>(name, info).
      (name, NewGaugeVec DefaultNamespace name (help info) (labels info))) gaugeMetrics"
    by (auto simp: NewExporter_def)
  then have "\<forall>(name, vec) \<in> set (gauges e). metrics vec = []"
    by (auto simp: NewGaugeVec_def)
  with wf show ?thesis
    by (auto simp: registry_ok_def wf_exporter_def)
qed

lemma wf_devices [simp]: "wf_exporter (e\<lparr>devices := ds\<rparr>) = wf_exporter e"
  by (simp add: wf_exporter_def)

text \<open>
  Claim C8. From an exporter whose vectors have pairwise different names and whose series
  have pairwise different keys (as \<^verbatim>\<open>NewExporter\<close> builds it), the same holds after every
  prefix of the effects of a cycle, and replaying all the effects gives the state the cycle
  ends in. After the next cycle, run on any device list, every series key and every metric
  sent, other than \<open>nvml_up\<close>, carries the label triple of a device of that list: nothing
  written for a device that is no longer enumerated survives.
\<close>

theorem C8_unique_and_fresh:
  assumes "wf_exporter e" and "registry_ok e"
  shows "(\<forall>n. registry_ok (fold replay (take n (cycle_trace w e)) e)) \<and>
    fold replay (cycle_trace w e) e = cycle w e \<and>
    (\<forall>name lvs. lvs \<in> fst ` set (series name (cycle w' ((cycle w e)\<lparr>devices := ds'\<rparr>))) \<longrightarrow>
       (\<exists>d \<in> set ds'. lvs = label_values d)) \<and>
    (\<forall>m \<in> set (sent (cycle_trace w' ((cycle w e)\<lparr>devices := ds'\<rparr>))).
       m = Metric (DefaultNamespace @ ''_up'') [] (up (cycle w' ((cycle w e)\<lparr>devices := ds'\<rparr>))) \<or>
       (\<exists>d \<in> set ds'. \<exists>name x.
          m = Metric name (zip [''device_id'', ''device_uuid'', ''device_name''] (label_values d)) x))"
proof (intro conjI allI impI ballI)
  fix n
  show "registry_ok (fold replay (take n (cycle_trace w e)) e)"
    using assms(2) by (rule registry_ok_fold)
next
  show "fold replay (cycle_trace w e) e = cycle w e"
    by (simp only: cycle_trace_events [OF assms(1)] cycle_replay [OF assms(1)])
next
  let ?e' = "(cycle w e)\<lparr>devices := ds'\<rparr>"
  have wf': "wf_exporter ?e'"
    using assms(1) by (simp add: wf_cycle)
  {
    fix name lvs
    assume "lvs \<in> fst ` set (series name (cycle w' ?e'))"
    from cycle_keys_devices [OF wf' this]
    show "\<exists>d \<in> set ds'. lvs = label_values d" by simp
  }
  {
    fix m
    assume "m \<in> set (sent (cycle_trace w' ?e'))"
    from sent_cycle_labels [OF wf' this]
    show "m = Metric (DefaultNamespace @ ''_up'') [] (up (cycle w' ?e')) \<or>
       (\<exists>d \<in> set ds'. \<exists>name x.
          m = Metric name (zip [''device_id'', ''device_uuid'', ''device_name''] (label_values d)) x)"
      by (simp add: label_values_def)
  }
qed

lemma registry_ok_exporter2: "registry_ok exporter2"
  using exporter2_new by (rule NewExporter_registry_ok)

theorem C8_unique_and_fresh_witness:
  "wf_exporter exporter2 \<and> registry_ok exporter2 \<and>
   registry_ok (fold replay (take 20 (cycle_trace nvml_ok exporter2)) exporter2) \<and>
   [''1'', ''GPU-1'', ''Tesla K80''] \<in> fst ` set (series ''gpu_percent'' (cycle nvml_ok exporter2)) \<and>
   [''1'', ''GPU-1'', ''Tesla K80''] \<notin>
     fst ` set (series ''gpu_percent'' (cycle nvml_ok ((cycle nvml_ok exporter2)\<lparr>devices := [gpu0]\<rparr>)))"
proof -
  note main = C8_unique_and_fresh [OF wf_exporter2 registry_ok_exporter2,
      where w = nvml_ok and w' = nvml_ok and ds' = "[gpu0]"]
  from main have ok: "registry_ok (fold replay (take 20 (cycle_trace nvml_ok exporter2)) exporter2)"
    by blast
  have "covered nvml_ok ''gpu_percent'' (devices exporter2) = [gpu0, gpu1]"
    by (simp add: devices_exporter2 nvml_ok_all)
  with cycle_series_keys [OF wf_exporter2 catalog_member(1), of nvml_ok]
  have before: "[''1'', ''GPU-1'', ''Tesla K80''] \<in>
      fst ` set (series ''gpu_percent'' (cycle nvml_ok exporter2))"
    by (simp add: labels_gpu1)
  from main have "\<forall>name lvs.
      lvs \<in> fst ` set (series name (cycle nvml_ok ((cycle nvml_ok exporter2)\<lparr>devices := [gpu0]\<rparr>))) \<longrightarrow>
      (\<exists>d \<in> set [gpu0]. lvs = label_values d)"
    by blast
  note fresh = this [rule_format]
  have "label_values gpu1 \<notin>
      fst ` set (series ''gpu_percent'' (cycle nvml_ok ((cycle nvml_ok exporter2)\<lparr>devices := [gpu0]\<rparr>)))"
  proof
    assume "label_values gpu1 \<in>
      fst ` set (series ''gpu_percent'' (cycle nvml_ok ((cycle nvml_ok exporter2)\<lparr>devices := [gpu0]\<rparr>)))"
    from fresh [OF this] have "label_values gpu1 = label_values gpu0" by simp
    then have "gpu1 = gpu0" by (rule label_values_inj)
    with gpu0_neq_gpu1 show False by simp
  qed
  then have after: "[''1'', ''GPU-1'', ''Tesla K80''] \<notin>
      fst ` set (series ''gpu_percent'' (cycle nvml_ok ((cycle nvml_ok exporter2)\<lparr>devices := [gpu0]\<rparr>)))"
    by (simp add: labels_gpu1)
  from wf_exporter2 registry_ok_exporter2 ok before after show ?thesis
    by blast
qed

subsection \<open>Every cycle of a run starts from a well-formed exporter\<close>

text \<open>
  The statements about cycles assume \<open>wf_exporter\<close>, and the one on uniqueness
  \<open>registry_ok\<close>. \<^verbatim>\<open>NewExporter\<close> establishes both and a cycle keeps both, whatever the
  devices answer; so they hold at the start of every cycle of a run.
\<close>

lemma registry_ok_cycle:
  assumes "wf_exporter e" and "registry_ok e"
  shows "registry_ok (cycle w e)"
  unfolding cycle_replay [OF assms(1)] using assms(2) by (rule registry_ok_fold)

lemma run_invariants:
  assumes "NewExporter (Inr ds) = Inr e"
  shows "wf_exporter (fold cycle ws e) \<and> registry_ok (fold cycle ws e)"
proof -
  have "wf_exporter e' \<and> registry_ok e' \<Longrightarrow>
      wf_exporter (fold cycle ws e') \<and> registry_ok (fold cycle ws e')" for e'
    by (induction ws arbitrary: e') (simp_all add: wf_cycle registry_ok_cycle)
  with NewExporter_wf [OF assms] NewExporter_registry_ok [OF assms] show ?thesis
    by blast
qed

lemma devices_cycle: "wf_exporter e \<Longrightarrow> devices (cycle w e) = devices e"
  by (simp add: cycle_replay)

subsection \<open>The first label is the decimal numeral of the index\<close>

lemma digits_nonempty: "digits k \<noteq> []"
  by (subst digits.simps) simp

lemma is_digit_digit: "j < 10 \<Longrightarrow> is_digit (digit j)"
  by (simp add: is_digit_def of_char_digit)

lemma digits_all_digit: "list_all is_digit (digits k)"
proof (induction k rule: digits.induct)
  case (1 k)
  show ?case
  proof (cases "k < 10")
    case True
    then show ?thesis
      by (subst digits.simps) (simp add: is_digit_digit)
  next
    case False
    with 1 have "list_all is_digit (digits (k div 10))" by simp
    with False show ?thesis
      by (subst digits.simps) (simp add: is_digit_digit)
  qed
qed

lemma digits_length: "length (digits k) = 1 \<longleftrightarrow> k < 10"
proof (cases "k < 10")
  case True
  then show ?thesis by (subst digits.simps) simp
next
  case False
  have "0 < length (digits (k div 10))"
    using digits_nonempty [of "k div 10"] by simp
  with False show ?thesis
    by (subst digits.simps) simp
qed

lemma digit_not_zero: "0 < j \<Longrightarrow> j < 10 \<Longrightarrow> digit j \<noteq> CHR ''0''"
proof
  assume "0 < j" and "j < 10" and "digit j = CHR ''0''"
  then have "of_char (CHR ''0'') = (48 + j :: nat)"
    using of_char_digit [of j] by simp
  with \<open>0 < j\<close> show False by simp
qed

lemma digits_hd: "0 < k \<Longrightarrow> hd (digits k) \<noteq> CHR ''0''"
proof (induction k rule: digits.induct)
  case (1 k)
  show ?case
  proof (cases "k < 10")
    case True
    with "1.prems" show ?thesis
      by (subst digits.simps) (simp add: digit_not_zero)
  next
    case False
    then have "0 < k div 10" by simp
    with 1 False have "hd (digits (k div 10)) \<noteq> CHR ''0''" by simp
    with False digits_nonempty [of "k div 10"] show ?thesis
      by (subst digits.simps) simp
  qed
qed

lemma numeral_of_digits: "numeral_of k (digits k)"
proof -
  have "length (digits k) = 1 \<or> hd (digits k) \<noteq> CHR ''0''"
  proof (cases "k < 10")
    case True
    with digits_length [of k] show ?thesis by simp
  next
    case False
    then have "0 < k" by simp
    then show ?thesis by (simp add: digits_hd)
  qed
  then show ?thesis
    by (simp add: numeral_of_def digits_nonempty digits_all_digit undigits_digits)
qed

lemma Itoa_examples: "Itoa 12 = ''12''" "Itoa 4096 = ''4096''" "Itoa (- 705) = ''-705''"
  by code_simp+

lemma decimal_examples:
  "decimal 12 ''12''" "\<not> decimal 12 ''012''" "\<not> decimal 12 ''0''" "\<not> decimal 12 ''c''"
  "decimal (- 705) ''-705''" "\<not> decimal 1 ''0''" "decimal 1 ''1''"
  by (simp_all add: decimal_def numeral_of_def is_digit_def undigits_def)

text \<open>
  Claim C9. In every cycle, each gauge write carries the three label values of one of the
  enumerated devices in the order (index, uuid, name), the first of them being the decimal
  numeral of the index of the device: digits only, no leading zero, denoting the index, with
  a minus sign in front for a negative index. The catalog declares for the metric written
  the schema (device_id, device_uuid, device_name). Every key of a series at the end of the
  cycle is such a triple; and every metric sent on the channel, other than \<open>nvml_up\<close>, pairs
  the three schema names with such a triple, in this order.
\<close>

theorem C9_label_order:
  assumes "wf_exporter e"
  shows "(\<forall>name lvs x. EvGaugeSet name lvs x \<in> set (cycle_trace w e) \<longrightarrow>
       (\<exists>d \<in> set (devices e).
          lvs = [Itoa (i d), DeviceUUID d, DeviceName d] \<and> decimal (i d) (hd lvs)) \<and>
       map_option labels (map_of gaugeMetrics name) =
         Some [''device_id'', ''device_uuid'', ''device_name'']) \<and>
    (\<forall>name lvs. lvs \<in> fst ` set (series name (cycle w e)) \<longrightarrow>
       (\<exists>d \<in> set (devices e).
          lvs = [Itoa (i d), DeviceUUID d, DeviceName d] \<and> decimal (i d) (hd lvs))) \<and>
    (\<forall>m \<in> set (sent (cycle_trace w e)).
       m = Metric (DefaultNamespace @ ''_up'') [] (up (cycle w e)) \<or>
       (\<exists>d \<in> set (devices e). \<exists>name x.
          m = Metric name (zip [''device_id'', ''device_uuid'', ''device_name'']
                               [Itoa (i d), DeviceUUID d, DeviceName d]) x \<and>
          decimal (i d) (Itoa (i d))))"
proof -
  have dec: "decimal n (Itoa n)" for n
    by (simp add: decimal_def Itoa_def numeral_of_digits)
  show ?thesis
  proof (intro conjI allI impI ballI)
    fix name lvs x
    assume "EvGaugeSet name lvs x \<in> set (cycle_trace w e)"
    then have "EvGaugeSet name lvs x \<in> set (cycle_events w e)"
      by (simp only: cycle_trace_events [OF assms])
    from gauge_set_cycle [OF this]
    show "\<exists>d \<in> set (devices e).
            lvs = [Itoa (i d), DeviceUUID d, DeviceName d] \<and> decimal (i d) (hd lvs)"
      and "map_option labels (map_of gaugeMetrics name) =
           Some [''device_id'', ''device_uuid'', ''device_name'']"
      by (auto simp: label_values_def catalog_schema dec)
  next
    fix name lvs
    assume "lvs \<in> fst ` set (series name (cycle w e))"
    from cycle_keys_devices [OF assms this]
    show "\<exists>d \<in> set (devices e).
            lvs = [Itoa (i d), DeviceUUID d, DeviceName d] \<and> decimal (i d) (hd lvs)"
      by (auto simp: label_values_def dec)
  next
    fix m
    assume "m \<in> set (sent (cycle_trace w e))"
    from sent_cycle_labels [OF assms this]
    show "m = Metric (DefaultNamespace @ ''_up'') [] (up (cycle w e)) \<or>
         (\<exists>d \<in> set (devices e). \<exists>name x.
            m = Metric name (zip [''device_id'', ''device_uuid'', ''device_name'']
                                 [Itoa (i d), DeviceUUID d, DeviceName d]) x \<and>
            decimal (i d) (Itoa (i d)))"
      by (auto simp: dec)
  qed
qed

lemma trace_gpu1_write:
  "EvGaugeSet ''gpu_percent'' (label_values gpu1) 45 \<in> set (cycle_trace nvml_ok exporter2)"
proof -
  have "EvGaugeSet ''gpu_percent'' (label_values gpu1) (float64 45) \<in> set (dev_events nvml_ok gpu1)"
    by (simp add: dev_events_def nvml_ok_def success_events_def)
  then have "EvGaugeSet ''gpu_percent'' (label_values gpu1) (float64 45) \<in>
      set (loop_events nvml_ok (devices exporter2))"
    by (simp add: devices_exporter2 nvml_ok_all)
  then have "EvGaugeSet ''gpu_percent'' (label_values gpu1) (float64 45) \<in>
      set (cycle_events nvml_ok exporter2)"
    unfolding cycle_events_def body_events_def by simp
  then show ?thesis
    by (simp add: cycle_trace_events [OF wf_exporter2] float64_exact)
qed

theorem C9_label_order_witness:
  "wf_exporter exporter2 \<and>
   EvGaugeSet ''gpu_percent'' [''1'', ''GPU-1'', ''Tesla K80''] 45 \<in> set (cycle_trace nvml_ok exporter2) \<and>
   gpu1 \<in> set (devices exporter2) \<and> i gpu1 = 1 \<and>
   [''1'', ''GPU-1'', ''Tesla K80''] = [Itoa (i gpu1), DeviceUUID gpu1, DeviceName gpu1] \<and>
   decimal 1 ''1'' \<and> \<not> decimal 1 ''0'' \<and>
   map_option labels (map_of gaugeMetrics ''gpu_percent'') =
     Some [''device_id'', ''device_uuid'', ''device_name'']"
proof -
  have one: "Itoa 1 = ''1''"
    by code_simp
  have lbl: "label_values gpu1 = [''1'', ''GPU-1'', ''Tesla K80'']"
    by (simp add: label_values_def gpu1_def one)
  have ev: "EvGaugeSet ''gpu_percent'' [''1'', ''GPU-1'', ''Tesla K80''] 45 \<in>
      set (cycle_trace nvml_ok exporter2)"
    using trace_gpu1_write by (simp only: lbl)
  note main = C9_label_order [OF wf_exporter2, of nvml_ok]
  from main have "\<forall>name lvs x. EvGaugeSet name lvs x \<in> set (cycle_trace nvml_ok exporter2) \<longrightarrow>
       (\<exists>d \<in> set (devices exporter2).
          lvs = [Itoa (i d), DeviceUUID d, DeviceName d] \<and> decimal (i d) (hd lvs)) \<and>
       map_option labels (map_of gaugeMetrics name) =
         Some [''device_id'', ''device_uuid'', ''device_name'']"
    by (rule conjunct1)
  from this [rule_format, OF ev]
  obtain d where d: "d \<in> set (devices exporter2)"
    "[''1'', ''GPU-1'', ''Tesla K80''] = [Itoa (i d), DeviceUUID d, DeviceName d]"
    "decimal (i d) (hd [''1'', ''GPU-1'', ''Tesla K80''])"
    and schema: "map_option labels (map_of gaugeMetrics ''gpu_percent'') =
      Some [''device_id'', ''device_uuid'', ''device_name'']"
    by blast
  have "label_values gpu1 = label_values d"
    using lbl d(2) unfolding label_values_def by (rule trans)
  then have "gpu1 = d"
    by (rule label_values_inj)
  then have "d = gpu1" by simp
  with d have "gpu1 \<in> set (devices exporter2)" "i gpu1 = 1"
    "[''1'', ''GPU-1'', ''Tesla K80''] = [Itoa (i gpu1), DeviceUUID gpu1, DeviceName gpu1]"
    "decimal 1 ''1''"
    by (simp_all add: gpu1_def)
  with wf_exporter2 ev schema decimal_examples(6) show ?thesis
    by blast
qed

end
